theory Spec2Isabelle
  imports Main "HOL-Library.AList"
begin

section \<open>Errors raised by the engine\<close>

text \<open>
  Every \<^verbatim>\<open>raise\<close> of \<^verbatim>\<open>engine.py\<close>, and every
  exception a built-in operation of the source can throw, is a value: a function that can
  fail returns \<open>py_error + 'a\<close>, with \<open>Inl\<close> for the exception.
  The \<^verbatim>\<open>ValueError\<close>s are told apart by the message the source gives them.
\<close>

datatype err_msg =
    NotValidInput          \<comment> \<open>"The input json is not a valid ChemMLWrapper input."\<close>
  | MissingName            \<comment> \<open>"... name of class/function is missing."\<close>
  | MissingLibrary         \<comment> \<open>"... name of library is missing"\<close>
  | RedundantKeys          \<comment> \<open>"... redundant or irrelevant keys"\<close>
  | BrokenPipe             \<comment> \<open>"... Ther is a broken pipe in the graph construction."\<close>
  | CycleInGraph           \<comment> \<open>"The input graph is constructed of cycles ..."\<close>
  | NotConstructedProperly \<comment> \<open>"The input graph is not constructed properly."\<close>
  | NotInList              \<comment> \<open>\<^verbatim>\<open>list.remove(x)\<close>: x not in list\<close>

datatype py_error = IndexError | KeyError | ValueError err_msg

section \<open>Dictionaries\<close>

text \<open>
  A Python \<^verbatim>\<open>dict\<close> is an association list in insertion order whose keys are
  distinct: \<^verbatim>\<open>for k in d\<close> followed by \<^verbatim>\<open>d[k]\<close> walks the pairs in
  order, \<^verbatim>\<open>d.get(k, default)\<close> is \<open>map_of\<close>, and \<^verbatim>\<open>d[k].append(v)\<close>
  changes the entry where it stands.
\<close>

type_synonym 'n adjacency = "('n \<times> 'n list) list"

definition adj :: "'n adjacency \<Rightarrow> 'n \<Rightarrow> 'n list" where
  \<comment> \<open>\<^verbatim>\<open>graph.get(v, ())\<close>\<close>
  "adj d k = (case map_of d k of None \<Rightarrow> [] | Some ns \<Rightarrow> ns)"

definition append_at :: "'n \<Rightarrow> 'n \<Rightarrow> 'n adjacency \<Rightarrow> 'n adjacency" where
  \<comment> \<open>\<^verbatim>\<open>d[k].append(v)\<close> for a key \<open>k\<close> of \<open>d\<close>\<close>
  "append_at k v d = AList.map_entry k (\<lambda>ns. ns @ [v]) d"

section \<open>The cycle detector: \<^verbatim>\<open>cycle_in_graph\<close>\<close>

text \<open>
  The graph is a dictionary from a vertex to the iterable of its neighbours. The loop
  keeps the set \<^verbatim>\<open>visited\<close>, the list \<^verbatim>\<open>path\<close> with its set
  \<^verbatim>\<open>path_set\<close>, and the list \<^verbatim>\<open>stack\<close> of iterators; an iterator is the
  list of the elements it has not yet given. Both Python lists grow and shrink at their
  end, which is the head of the HOL list. The first element of \<^verbatim>\<open>path\<close> is a
  fresh \<^verbatim>\<open>object()\<close>, equal to no vertex: it is \<open>None\<close>, and a vertex \<open>v\<close>
  is \<open>Some v\<close>.

  One round of \<^verbatim>\<open>while stack\<close>: the \<^verbatim>\<open>for\<close> takes elements from the
  top iterator; an element on the path returns \<^verbatim>\<open>True\<close>, a new one is pushed
  (and the \<^verbatim>\<open>for\<close> is left), a visited one is passed over; when the iterator is
  exhausted, the \<^verbatim>\<open>else\<close> of the \<^verbatim>\<open>for\<close> pops the path and the stack
  (\<^verbatim>\<open>path.pop()\<close> raises on an empty list, \<^verbatim>\<open>path_set.remove\<close> on a missing
  element).
\<close>

lemma in_adj_iff: "w \<in> set (adj graph v) \<longleftrightarrow> (\<exists>ns. map_of graph v = Some ns \<and> w \<in> set ns)"
  by (cases "map_of graph v") (simp_all add: adj_def)

lemma adj_subset: "set (adj graph v) \<subseteq> \<Union> (set ` snd ` set graph)"
proof
  fix w assume "w \<in> set (adj graph v)"
  then obtain ns where "map_of graph v = Some ns" and "w \<in> set ns"
    by (auto simp: in_adj_iff)
  then have "(v, ns) \<in> set graph" and "w \<in> set ns"
    by (auto dest: map_of_SomeD)
  then show "w \<in> \<Union> (set ` snd ` set graph)"
    by force
qed

definition unseen :: "'v adjacency \<Rightarrow> 'v set \<Rightarrow> 'v list list \<Rightarrow> 'v set" where
  "unseen graph visited stack = (\<Union> (set ` snd ` set graph) \<union> \<Union> (set ` set stack)) - visited"

lemma finite_unseen: "finite (unseen graph visited stack)"
  unfolding unseen_def by auto

function cycle_loop ::
  "'v adjacency \<Rightarrow> 'v set \<Rightarrow> 'v option list \<Rightarrow> 'v option set \<Rightarrow> 'v list list \<Rightarrow> py_error + bool" where
  "cycle_loop graph visited path path_set [] = Inr False"
| "cycle_loop graph visited path path_set ([] # stack) =
     (case path of
        [] \<Rightarrow> Inl IndexError
      | p # path' \<Rightarrow>
          if p \<in> path_set then cycle_loop graph visited path' (path_set - {p}) stack
          else Inl KeyError)"
| "cycle_loop graph visited path path_set ((v # it) # stack) =
     (if Some v \<in> path_set then Inr True
      else if v \<notin> visited then
        cycle_loop graph (insert v visited) (Some v # path) (insert (Some v) path_set)
          (adj graph v # it # stack)
      else cycle_loop graph visited path path_set (it # stack))"
  by pat_completeness auto
termination
proof (relation "measures [\<lambda>(graph, visited, path, path_set, stack). card (unseen graph visited stack),
                           \<lambda>(graph, visited, path, path_set, stack). sum_list (map (\<lambda>it. Suc (length it)) stack)]",
       goal_cases)
  case 1
  show ?case by simp
next
  case (2 graph visited path path_set stack p path')
  have "unseen graph visited ([] # stack) = unseen graph visited stack"
    by (simp add: unseen_def)
  then show ?case by simp
next
  case (3 graph visited path path_set v it stack)
  have "unseen graph (insert v visited) (adj graph v # it # stack) \<subseteq> unseen graph visited ((v # it) # stack) - {v}"
    using adj_subset [of graph v] by (auto simp: unseen_def)
  moreover have "v \<in> unseen graph visited ((v # it) # stack)"
    using 3 by (simp add: unseen_def)
  ultimately have "unseen graph (insert v visited) (adj graph v # it # stack) \<subset> unseen graph visited ((v # it) # stack)"
    by blast
  then have "card (unseen graph (insert v visited) (adj graph v # it # stack)) < card (unseen graph visited ((v # it) # stack))"
    by (rule psubset_card_mono [OF finite_unseen])
  then show ?case by simp
next
  case (4 graph visited path path_set v it stack)
  then have "unseen graph visited (it # stack) = unseen graph visited ((v # it) # stack)"
    by (auto simp: unseen_def)
  then show ?case by simp
qed

definition cycle_in_graph :: "'v adjacency \<Rightarrow> py_error + bool" where
  "cycle_in_graph graph = cycle_loop graph {} [None] {None} [map fst graph]"

subsection \<open>What a directed cycle is\<close>

text \<open>
  The edges of the adjacency dictionary, and the graphs with a directed cycle: some vertex
  reaches itself along at least one edge. A vertex that is only a neighbour has no
  outgoing edge, as \<^verbatim>\<open>graph.get(v, ())\<close> gives it none.
\<close>

definition edges :: "'v adjacency \<Rightarrow> ('v \<times> 'v) set" where
  "edges graph = {(u, w). w \<in> set (adj graph u)}"

definition has_cycle :: "'v adjacency \<Rightarrow> bool" where
  "has_cycle graph = (\<exists>v. (v, v) \<in> (edges graph)\<^sup>+)"

subsection \<open>The invariant of the traversal\<close>

text \<open>
  The path is \<open>map Some vs @ [None]\<close>, one element per iterator of the stack; the
  successors of \<open>None\<close> are the keys of the dictionary. The vertices visited and no
  longer on the path are finished. For every element of the path, the successors already
  taken from its iterator are finished, or the next element of the path. The finished
  vertices are closed under the edges and lie on no cycle.
\<close>

definition succs :: "'v adjacency \<Rightarrow> 'v option \<Rightarrow> 'v list" where
  "succs graph p = (case p of None \<Rightarrow> map fst graph | Some v \<Rightarrow> adj graph v)"

fun chain :: "'v adjacency \<Rightarrow> 'v set \<Rightarrow> 'v option \<Rightarrow> ('v option \<times> 'v list) list \<Rightarrow> bool" where
  "chain graph B c [] = True"
| "chain graph B c ((p, it) # fs) =
     (set it \<subseteq> set (succs graph p)
      \<and> set (succs graph p) \<subseteq> set it \<union> B \<union> set_option c
      \<and> set_option c \<subseteq> set (succs graph p)
      \<and> chain graph B p fs)"

definition dfs_inv :: "'v adjacency \<Rightarrow> 'v set \<Rightarrow> 'v list \<Rightarrow> 'v list list \<Rightarrow> bool" where
  "dfs_inv graph visited vs stk \<longleftrightarrow>
     length stk = Suc (length vs) \<and> distinct vs \<and> set vs \<subseteq> visited
     \<and> chain graph (visited - set vs) None (zip (map Some vs @ [None]) stk)
     \<and> (\<forall>b \<in> visited - set vs. set (adj graph b) \<subseteq> visited - set vs)
     \<and> (\<forall>b \<in> visited - set vs. (b, b) \<notin> (edges graph)\<^sup>+)"

lemma chain_mono: "chain graph B c fs \<Longrightarrow> B \<subseteq> B' \<Longrightarrow> chain graph B' c fs"
proof (induction fs arbitrary: c)
  case Nil
  then show ?case by simp
next
  case (Cons f fs)
  obtain p it where f: "f = (p, it)"
    by (cases f) auto
  from Cons.prems have "set (succs graph p) \<subseteq> set it \<union> B' \<union> set_option c"
    unfolding f by auto
  with Cons show ?case
    unfolding f by simp
qed

lemma chain_child: "chain graph B (Some v) fs \<Longrightarrow> chain graph (insert v B) None fs"
proof (cases fs)
  case Nil
  then show ?thesis by simp
next
  case (Cons f fs')
  obtain p it where f: "f = (p, it)"
    by (cases f) auto
  assume "chain graph B (Some v) fs"
  then have "set it \<subseteq> set (succs graph p)" "set (succs graph p) \<subseteq> set it \<union> insert v B"
    and "chain graph B p fs'"
    unfolding Cons f by auto
  then show ?thesis
    unfolding Cons f using chain_mono [of graph B p fs' "insert v B"] by auto
qed

lemma chain_path:
  assumes "chain graph B c (zip (map Some vs @ [None]) stk)" and "length stk = Suc (length vs)"
    and "v \<in> set vs"
  shows "(v, hd vs) \<in> (edges graph)\<^sup>*"
  using assms
proof (induction vs arbitrary: stk c)
  case Nil
  then show ?case by simp
next
  case (Cons u vs)
  from Cons.prems(2) obtain it stk' where stk: "stk = it # stk'" and len: "length stk' = Suc (length vs)"
    by (cases stk) auto
  from Cons.prems(1) have ch: "chain graph B (Some u) (zip (map Some vs @ [None]) stk')"
    unfolding stk by simp
  show ?case
  proof (cases "v = u")
    case True
    then show ?thesis by simp
  next
    case False
    with Cons.prems(3) have v: "v \<in> set vs" by simp
    then obtain u2 vs2 where vs: "vs = u2 # vs2"
      by (cases vs) auto
    from len obtain it2 stk2 where stk': "stk' = it2 # stk2"
      by (cases stk') auto
    from ch have "u \<in> set (adj graph u2)"
      unfolding vs stk' by (simp add: succs_def)
    then have "(u2, u) \<in> edges graph"
      by (simp add: edges_def)
    moreover from Cons.IH [OF ch len v] have "(v, u2) \<in> (edges graph)\<^sup>*"
      unfolding vs by simp
    ultimately show ?thesis by simp
  qed
qed

lemma closed_rtrancl:
  assumes "\<forall>b \<in> B. set (adj graph b) \<subseteq> B" and "(x, y) \<in> (edges graph)\<^sup>*" and "x \<in> B"
  shows "y \<in> B"
  using assms(2,3)
proof (induction rule: rtrancl_induct)
  case base
  then show ?case .
next
  case (step y z)
  then have "y \<in> B" and "z \<in> set (adj graph y)"
    by (simp_all add: edges_def)
  with assms(1) show ?case by blast
qed

lemma closed_no_return:
  assumes "\<forall>b \<in> B. set (adj graph b) \<subseteq> B" and "set (adj graph v) \<subseteq> B" and "v \<notin> B"
  shows "(v, v) \<notin> (edges graph)\<^sup>+"
proof
  assume "(v, v) \<in> (edges graph)\<^sup>+"
  then obtain w where "(v, w) \<in> edges graph" and "(w, v) \<in> (edges graph)\<^sup>*"
    by (blast dest: tranclD)
  with assms(2) have "w \<in> B"
    by (auto simp: edges_def)
  from closed_rtrancl [OF assms(1) \<open>(w, v) \<in> (edges graph)\<^sup>*\<close> this] assms(3)
  show False by simp
qed

lemma all_black_acyclic:
  assumes "fst ` set graph \<subseteq> B" and "\<forall>b \<in> B. (b, b) \<notin> (edges graph)\<^sup>+"
  shows "\<not> has_cycle graph"
proof
  assume "has_cycle graph"
  then obtain v where v: "(v, v) \<in> (edges graph)\<^sup>+"
    by (auto simp: has_cycle_def)
  then obtain w where "(v, w) \<in> edges graph"
    by (blast dest: tranclD)
  then obtain ns where "map_of graph v = Some ns"
    by (auto simp: edges_def in_adj_iff)
  then have "v \<in> fst ` set graph"
    by (metis domI dom_map_of_conv_image_fst)
  with assms v show False by blast
qed

lemma dfs_inv_pop:
  assumes "dfs_inv graph visited (v # vs) ([] # stk)"
  shows "dfs_inv graph visited vs stk"
proof -
  let ?B = "visited - set (v # vs)"
  from assms have len: "length stk = Suc (length vs)" and dist: "distinct (v # vs)"
    and sub: "set (v # vs) \<subseteq> visited"
    and ch: "chain graph ?B None ((Some v, []) # zip (map Some vs @ [None]) stk)"
    and closed: "\<forall>b \<in> ?B. set (adj graph b) \<subseteq> ?B"
    and acyc: "\<forall>b \<in> ?B. (b, b) \<notin> (edges graph)\<^sup>+"
    unfolding dfs_inv_def by simp_all
  have B': "visited - set vs = insert v ?B"
    using dist sub by auto
  from ch have out: "set (adj graph v) \<subseteq> ?B"
    and rest: "chain graph ?B (Some v) (zip (map Some vs @ [None]) stk)"
    by (simp_all add: succs_def)
  have "v \<notin> ?B" by simp
  from closed_no_return [OF closed out this] have "(v, v) \<notin> (edges graph)\<^sup>+" .
  with acyc have acyc': "\<forall>b \<in> insert v ?B. (b, b) \<notin> (edges graph)\<^sup>+"
    by blast
  from closed out have closed': "\<forall>b \<in> insert v ?B. set (adj graph b) \<subseteq> insert v ?B"
    by blast
  from len dist sub chain_child [OF rest] closed' acyc' show ?thesis
    unfolding dfs_inv_def B' by simp
qed

lemma dfs_inv_done:
  assumes "dfs_inv graph visited [] ([] # stk)"
  shows "stk = []" and "\<not> has_cycle graph"
proof -
  from assms show "stk = []"
    unfolding dfs_inv_def by simp
  from assms have "fst ` set graph \<subseteq> visited" and "\<forall>b \<in> visited. (b, b) \<notin> (edges graph)\<^sup>+"
    unfolding dfs_inv_def \<open>stk = []\<close> by (simp_all add: succs_def)
  then show "\<not> has_cycle graph"
    by (rule all_black_acyclic)
qed

lemma dfs_inv_top:
  assumes "dfs_inv graph visited vs ((v # it) # stk)"
  obtains p path' where "map Some vs @ [None] = p # path'"
    and "v \<in> set (succs graph p)" and "set it \<subseteq> set (succs graph p)"
    and "set (succs graph p) \<subseteq> insert v (set it) \<union> (visited - set vs)"
    and "chain graph (visited - set vs) p (zip path' stk)"
    and "p = (case vs of [] \<Rightarrow> None | u # _ \<Rightarrow> Some u)"
proof (cases vs)
  case Nil
  with assms show ?thesis
    by (intro that [of None "[]"]) (auto simp: dfs_inv_def)
next
  case (Cons u us)
  with assms show ?thesis
    by (intro that [of "Some u" "map Some us @ [None]"]) (auto simp: dfs_inv_def)
qed

lemma dfs_inv_found:
  assumes "dfs_inv graph visited vs ((v # it) # stk)" and "v \<in> set vs"
  shows "has_cycle graph"
proof -
  from assms(2) obtain u us where vs: "vs = u # us"
    by (cases vs) auto
  from assms(1) have "chain graph (visited - set vs) None (zip (map Some vs @ [None]) ((v # it) # stk))"
    and "length ((v # it) # stk) = Suc (length vs)"
    unfolding dfs_inv_def by simp_all
  from chain_path [OF this assms(2)] have "(v, u) \<in> (edges graph)\<^sup>*"
    unfolding vs by simp
  moreover from assms(1) have "v \<in> set (adj graph u)"
    unfolding dfs_inv_def vs by (simp add: succs_def)
  then have "(u, v) \<in> edges graph"
    by (simp add: edges_def)
  ultimately have "(v, v) \<in> (edges graph)\<^sup>+"
    by (rule rtrancl_into_trancl1)
  then show ?thesis
    unfolding has_cycle_def by blast
qed

lemma dfs_inv_push:
  assumes "dfs_inv graph visited vs ((v # it) # stk)" and "v \<notin> visited"
  shows "dfs_inv graph (insert v visited) (v # vs) (adj graph v # it # stk)"
proof -
  from assms(1) obtain p path' where path: "map Some vs @ [None] = p # path'"
    and top: "v \<in> set (succs graph p)" "set it \<subseteq> set (succs graph p)"
      "set (succs graph p) \<subseteq> insert v (set it) \<union> (visited - set vs)"
    and rest: "chain graph (visited - set vs) p (zip path' stk)"
    by (rule dfs_inv_top)
  from assms have B: "insert v visited - set (v # vs) = visited - set vs"
    by auto
  from assms(1) have len: "length ((v # it) # stk) = Suc (length vs)" and dist: "distinct vs"
    and sub: "set vs \<subseteq> visited"
    and closed: "\<forall>b \<in> visited - set vs. set (adj graph b) \<subseteq> visited - set vs"
    and acyc: "\<forall>b \<in> visited - set vs. (b, b) \<notin> (edges graph)\<^sup>+"
    unfolding dfs_inv_def by simp_all
  from sub assms(2) have "v \<notin> set vs" by blast
  have "chain graph (visited - set vs) None
          (zip (map Some (v # vs) @ [None]) (adj graph v # it # stk))"
    using top rest by (simp add: path succs_def)
  with len dist sub closed acyc \<open>v \<notin> set vs\<close> show ?thesis
    unfolding dfs_inv_def B by auto
qed

lemma dfs_inv_skip:
  assumes "dfs_inv graph visited vs ((v # it) # stk)" and "v \<in> visited" and "v \<notin> set vs"
  shows "dfs_inv graph visited vs (it # stk)"
proof -
  from assms(1) obtain p path' where path: "map Some vs @ [None] = p # path'"
    and top: "v \<in> set (succs graph p)" "set it \<subseteq> set (succs graph p)"
      "set (succs graph p) \<subseteq> insert v (set it) \<union> (visited - set vs)"
    and rest: "chain graph (visited - set vs) p (zip path' stk)"
    by (rule dfs_inv_top)
  have "chain graph (visited - set vs) None (zip (map Some vs @ [None]) (it # stk))"
    using top rest assms(2,3) by (simp add: path) blast
  with assms(1) show ?thesis
    unfolding dfs_inv_def by simp
qed

lemma cycle_loop_correct:
  assumes "path = map Some vs @ [None]" and "path_set = set path"
    and "dfs_inv graph visited vs stk"
  shows "cycle_loop graph visited path path_set stk = Inr (has_cycle graph)"
  using assms
proof (induction graph visited path path_set stk arbitrary: vs rule: cycle_loop.induct)
  case (1 graph visited path path_set)
  then show ?case by (simp add: dfs_inv_def)
next
  case (2 graph visited path path_set stk)
  show ?case
  proof (cases vs)
    case Nil
    with "2.prems" dfs_inv_done [of graph visited stk] show ?thesis
      by simp
  next
    case (Cons v us)
    with "2.prems" have path: "path = Some v # (map Some us @ [None])"
      and mem: "Some v \<in> path_set" and "distinct (v # us)"
      by (simp_all add: dfs_inv_def)
    then have set': "path_set - {Some v} = set (map Some us @ [None])"
      using "2.prems"(2) by auto
    from "2.prems"(3) have "dfs_inv graph visited us stk"
      unfolding Cons by (rule dfs_inv_pop)
    from "2.IH" [OF path mem refl set' this] show ?thesis
      by (simp add: path mem)
  qed
next
  case (3 graph visited path path_set v it stk)
  show ?case
  proof (cases "Some v \<in> path_set")
    case True
    with "3.prems" have "v \<in> set vs" by auto
    from dfs_inv_found [OF "3.prems"(3) this] True show ?thesis
      by simp
  next
    case notin: False
    with "3.prems" have v: "v \<notin> set vs" by auto
    show ?thesis
    proof (cases "v \<in> visited")
      case True
      from dfs_inv_skip [OF "3.prems"(3) True v]
      have "dfs_inv graph visited vs (it # stk)" .
      from "3.IH"(2) [OF notin _ "3.prems"(1,2) this] True notin show ?thesis
        by simp
    next
      case False
      from dfs_inv_push [OF "3.prems"(3) False]
      have inv: "dfs_inv graph (insert v visited) (v # vs) (adj graph v # it # stk)" .
      have p: "Some v # path = map Some (v # vs) @ [None]"
        using "3.prems"(1) by simp
      have s: "insert (Some v) path_set = set (Some v # path)"
        using "3.prems"(2) by simp
      from "3.IH"(1) [OF notin False p s inv] False notin show ?thesis
        by simp
    qed
  qed
qed

lemma dfs_inv_initial: "dfs_inv graph {} [] [map fst graph]"
  by (simp add: dfs_inv_def succs_def)

lemma cycle_in_graph_correct: "cycle_in_graph graph = Inr (has_cycle graph)"
  unfolding cycle_in_graph_def
  by (rule cycle_loop_correct [of _ "[]"]) (simp_all add: dfs_inv_initial)

text \<open>
  Claim C1. For every graph given as a forward adjacency dictionary,
  \<^verbatim>\<open>cycle_in_graph\<close> returns (it raises nothing), and it returns \<^verbatim>\<open>True\<close>
  exactly when the graph has a directed cycle: some vertex reaches itself along one or
  more edges. Nothing is assumed of the graph: it may have several components, and
  vertices that are neighbours without being keys.
\<close>

theorem cycle_in_graph_iff:
  "cycle_in_graph graph = Inr (\<exists>v. (v, v) \<in> (edges graph)\<^sup>+)"
proof -
  have "cycle_loop graph {} [None] (set [None]) [map fst graph] = Inr (has_cycle graph)"
    by (rule cycle_loop_correct [of _ "[]"]) (simp_all add: dfs_inv_initial)
  then show ?thesis
    by (simp add: cycle_in_graph_def has_cycle_def)
qed

theorem cycle_in_graph_iff_witness:
  "cycle_in_graph [(1::nat, [2, 3]), (2, [3])] = Inr False
   \<and> \<not> (\<exists>v. (v, v) \<in> (edges [(1::nat, [2, 3]), (2, [3])])\<^sup>+)
   \<and> cycle_in_graph [(1::nat, [2]), (2, [3]), (3, [1])] = Inr True
   \<and> (\<exists>v. (v, v) \<in> (edges [(1::nat, [2]), (2, [3]), (3, [1])])\<^sup>+)
   \<and> cycle_in_graph [(1::nat, [2]), (4, [5]), (5, [6, 4])] = Inr True
   \<and> (\<exists>v. (v, v) \<in> (edges [(1::nat, [2]), (4, [5]), (5, [6, 4])])\<^sup>+)"
proof -
  have "cycle_in_graph [(1::nat, [2, 3]), (2, [3])] = Inr False"
    by (simp add: cycle_in_graph_def adj_def)
  moreover have "cycle_in_graph [(1::nat, [2]), (2, [3]), (3, [1])] = Inr True"
    by (simp add: cycle_in_graph_def adj_def)
  moreover have "cycle_in_graph [(1::nat, [2]), (4, [5]), (5, [6, 4])] = Inr True"
    by (simp add: cycle_in_graph_def adj_def)
  ultimately show ?thesis
    using cycle_in_graph_iff [of "[(1::nat, [2, 3]), (2, [3])]"]
      cycle_in_graph_iff [of "[(1::nat, [2]), (2, [3]), (3, [1])]"]
      cycle_in_graph_iff [of "[(1::nat, [2]), (4, [5]), (5, [6, 4])]"]
    by simp
qed

section \<open>The graph builder: \<^verbatim>\<open>Parser.make_graph\<close>\<close>

text \<open>
  \<^verbatim>\<open>send_recv[node_id] = {'send': [name], 'recv': [(node_id, name)]}\<close>.
  The result of \<^verbatim>\<open>make_graph\<close> is the triple
  \<^verbatim>\<open>(graph, graph_send, graph_recv)\<close>: the edge list and the two adjacency
  dictionaries. A recv item whose producer is no key of \<^verbatim>\<open>send_recv\<close>, or whose
  name is not in the producer's send list, raises; the lookup
  \<^verbatim>\<open>graph_send[item[0]]\<close> comes after that test, so its key exists.
\<close>

record ('n, 't) sr_entry =
  send :: "'t list"
  recv :: "('n \<times> 't) list"

type_synonym ('n, 't) send_recv = "('n \<times> ('n, 't) sr_entry) list"

type_synonym 'n graphs = "('n \<times> 'n) list \<times> 'n adjacency \<times> 'n adjacency"

fun recv_loop ::
  "('n, 't) send_recv \<Rightarrow> 'n \<Rightarrow> ('n \<times> 't) list \<Rightarrow> 'n graphs \<Rightarrow> py_error + 'n graphs" where
  "recv_loop sr node_id [] st = Inr st"
| "recv_loop sr node_id (item # items) (graph, graph_send, graph_recv) =
     (case map_of sr (fst item) of
        None \<Rightarrow> Inl (ValueError BrokenPipe)
      | Some ref \<Rightarrow>
          if snd item \<notin> set (send ref) then Inl (ValueError BrokenPipe)
          else recv_loop sr node_id items
                 (graph @ [(fst item, node_id)],
                  append_at (fst item) node_id graph_send,
                  append_at node_id (fst item) graph_recv))"

fun node_loop ::
  "('n, 't) send_recv \<Rightarrow> ('n, 't) send_recv \<Rightarrow> 'n graphs \<Rightarrow> py_error + 'n graphs" where
  "node_loop sr [] st = Inr st"
| "node_loop sr ((node_id, e) # rest) st =
     (case recv_loop sr node_id (recv e) st of
        Inl err \<Rightarrow> Inl err
      | Inr st' \<Rightarrow> node_loop sr rest st')"

definition make_graph :: "('n, 't) send_recv \<Rightarrow> py_error + 'n graphs" where
  "make_graph sr =
     node_loop sr sr ([], map (\<lambda>(i, e). (i, [])) sr, map (\<lambda>(i, e). (i, [])) sr)"

text \<open>The number of recv references of the node \<open>v\<close> whose producer is \<open>u\<close>.\<close>

definition refs_of :: "('n, 't) sr_entry \<Rightarrow> 'n \<Rightarrow> nat" where
  "refs_of e u = length (filter (\<lambda>item. fst item = u) (recv e))"

definition refs_between :: "('n, 't) send_recv \<Rightarrow> 'n \<Rightarrow> 'n \<Rightarrow> nat" where
  "refs_between sr u v = (case map_of sr v of None \<Rightarrow> 0 | Some e \<Rightarrow> refs_of e u)"

subsection \<open>Broken pipes\<close>

lemma recv_loop_error:
  "recv_loop sr n items st = Inl err \<Longrightarrow> err = ValueError BrokenPipe"
proof (induction items arbitrary: st)
  case Nil
  then show ?case by simp
next
  case (Cons item items)
  obtain g gs gr where st: "st = (g, gs, gr)"
    by (cases st) auto
  from Cons.prems Cons.IH show ?case
    unfolding st by (auto split: option.splits if_splits)
qed

lemma recv_loop_broken:
  assumes "item \<in> set items"
    and "map_of sr (fst item) = None
         \<or> (\<exists>ref. map_of sr (fst item) = Some ref \<and> snd item \<notin> set (send ref))"
  shows "recv_loop sr n items st = Inl (ValueError BrokenPipe)"
  using assms
proof (induction items arbitrary: st)
  case Nil
  then show ?case by simp
next
  case (Cons i items)
  obtain g gs gr where st: "st = (g, gs, gr)"
    by (cases st) auto
  show ?case
  proof (cases "i = item")
    case True
    with Cons.prems(2) show ?thesis
      unfolding st by (auto split: option.splits)
  next
    case False
    with Cons.prems have "item \<in> set items" by simp
    from Cons.IH [OF this Cons.prems(2)] show ?thesis
      unfolding st by (simp split: option.splits)
  qed
qed

lemma node_loop_broken:
  assumes "(n, e) \<in> set nodes" and "item \<in> set (recv e)"
    and "map_of sr (fst item) = None
         \<or> (\<exists>ref. map_of sr (fst item) = Some ref \<and> snd item \<notin> set (send ref))"
  shows "node_loop sr nodes st = Inl (ValueError BrokenPipe)"
  using assms(1)
proof (induction nodes arbitrary: st)
  case Nil
  then show ?case by simp
next
  case (Cons p nodes)
  obtain m f where p: "p = (m, f)"
    by (cases p) auto
  show ?case
  proof (cases "recv_loop sr m (recv f) st")
    case (Inl err)
    then show ?thesis
      unfolding p using recv_loop_error [OF Inl] by simp
  next
    case (Inr st')
    have "p \<noteq> (n, e)"
    proof
      assume "p = (n, e)"
      with p have "m = n" "f = e" by simp_all
      with recv_loop_broken [OF assms(2,3), of n st] Inr show False by simp
    qed
    with Cons.prems have "(n, e) \<in> set nodes" by simp
    from Cons.IH [OF this] Inr show ?thesis
      unfolding p by simp
  qed
qed

text \<open>
  Claim C3. If some node of the send/recv structure holds a recv reference
  \<open>(producerId, variableName)\<close> such that no node has the id \<open>producerId\<close>, or that node
  does not list \<open>variableName\<close> among its sends, then \<^verbatim>\<open>make_graph\<close> raises the
  "broken pipe" \<^verbatim>\<open>ValueError\<close>: the result is the error, and no edge list or
  adjacency dictionary is returned.
\<close>

theorem make_graph_broken_pipe:
  assumes "(node_id, e) \<in> set sr" and "(producerId, variableName) \<in> set (recv e)"
    and "map_of sr producerId = None
         \<or> (\<exists>ref. map_of sr producerId = Some ref \<and> variableName \<notin> set (send ref))"
  shows "make_graph sr = Inl (ValueError BrokenPipe)"
  unfolding make_graph_def
  by (rule node_loop_broken [OF assms(1,2)]) (use assms(3) in simp)

theorem make_graph_broken_pipe_witness:
  "make_graph [(''A'', \<lparr>send = [''x''], recv = []\<rparr>),
               (''B'', \<lparr>send = [], recv = [(''A'', ''x''), (''A'', ''y'')]\<rparr>)]
     = Inl (ValueError BrokenPipe)
   \<and> make_graph [(''B'', \<lparr>send = [], recv = [(''C'', ''x'')]\<rparr>)]
     = (Inl (ValueError BrokenPipe) :: py_error + string graphs)"
proof
  show "make_graph [(''A'', \<lparr>send = [''x''], recv = []\<rparr>),
               (''B'', \<lparr>send = [], recv = [(''A'', ''x''), (''A'', ''y'')]\<rparr>)]
     = Inl (ValueError BrokenPipe)"
    by (rule make_graph_broken_pipe
          [of "''B''" "\<lparr>send = [], recv = [(''A'', ''x''), (''A'', ''y'')]\<rparr>" _ "''A''" "''y''"])
       simp_all
  show "make_graph [(''B'', \<lparr>send = [], recv = [(''C'', ''x'')]\<rparr>)]
     = (Inl (ValueError BrokenPipe) :: py_error + string graphs)"
    by (rule make_graph_broken_pipe
          [of "''B''" "\<lparr>send = [], recv = [(''C'', ''x'')]\<rparr>" _ "''C''" "''x''"])
       simp_all
qed

subsection \<open>One entry per reference\<close>

lemma map_fst_append_at: "map fst (append_at k v d) = map fst d"
  unfolding append_at_def by (induction d) auto

lemma adj_append_at:
  "k \<in> fst ` set d \<Longrightarrow> adj (append_at k v d) k' = (if k' = k then adj d k @ [v] else adj d k')"
  unfolding append_at_def adj_def
  by (auto simp: map_of_map_entry weak_map_of_SomeI split: option.splits dest: map_of_SomeD)
     (metis fst_conv image_eqI map_of_eq_None_iff option.distinct(1))+

fun refs_in :: "('n, 't) send_recv \<Rightarrow> 'n \<Rightarrow> 'n \<Rightarrow> nat" where
  "refs_in [] u v = 0"
| "refs_in ((n, e) # rest) u v = (if n = v then refs_of e u else 0) + refs_in rest u v"

lemma refs_in_notin: "v \<notin> fst ` set sr \<Longrightarrow> refs_in sr u v = 0"
  by (induction sr u v rule: refs_in.induct) auto

lemma refs_in_between:
  "distinct (map fst sr) \<Longrightarrow> refs_in sr u v = refs_between sr u v"
proof (induction sr u v rule: refs_in.induct)
  case (1 u v)
  then show ?case by (simp add: refs_between_def)
next
  case (2 n e rest u v)
  then have "n \<notin> fst ` set rest" and IH: "refs_in rest u v = refs_between rest u v"
    by auto
  moreover from this have "map_of rest n = None"
    by (simp add: map_of_eq_None_iff)
  ultimately show ?case
    by (simp add: refs_between_def refs_in_notin)
qed

lemma recv_loop_counts:
  assumes "recv_loop sr n items (g, gs, gr) = Inr (g', gs', gr')"
    and "map fst gs = map fst sr" and "map fst gr = map fst sr" and "n \<in> fst ` set sr"
  shows "map fst gs' = map fst sr \<and> map fst gr' = map fst sr
    \<and> count_list g' (u, v) = count_list g (u, v) + (if v = n then length (filter (\<lambda>i. fst i = u) items) else 0)
    \<and> count_list (adj gs' u) v = count_list (adj gs u) v + (if v = n then length (filter (\<lambda>i. fst i = u) items) else 0)
    \<and> count_list (adj gr' v) u = count_list (adj gr v) u + (if v = n then length (filter (\<lambda>i. fst i = u) items) else 0)"
  using assms
proof (induction items arbitrary: g gs gr)
  case Nil
  then show ?case by simp
next
  case (Cons item items)
  from Cons.prems(1) obtain ref where ref: "map_of sr (fst item) = Some ref"
    and rest: "recv_loop sr n items (g @ [(fst item, n)], append_at (fst item) n gs, append_at n (fst item) gr) = Inr (g', gs', gr')"
    by (auto split: option.splits if_splits)
  from ref have k1: "fst item \<in> fst ` set gs"
    using Cons.prems(2) by (metis domI dom_map_of_conv_image_fst set_map)
  have k2: "n \<in> fst ` set gr"
    using Cons.prems(3,4) by (metis set_map)
  note IH = Cons.IH [OF rest _ _ Cons.prems(4), unfolded map_fst_append_at, OF Cons.prems(2,3)]
  show ?case
    using IH by (auto simp: adj_append_at [OF k1] adj_append_at [OF k2])
qed


lemma node_loop_counts:
  assumes "node_loop sr nodes (g, gs, gr) = Inr (g', gs', gr')"
    and "map fst gs = map fst sr" and "map fst gr = map fst sr" and "set nodes \<subseteq> set sr"
  shows "map fst gs' = map fst sr \<and> map fst gr' = map fst sr
    \<and> count_list g' (u, v) = count_list g (u, v) + refs_in nodes u v
    \<and> count_list (adj gs' u) v = count_list (adj gs u) v + refs_in nodes u v
    \<and> count_list (adj gr' v) u = count_list (adj gr v) u + refs_in nodes u v"
  using assms
proof (induction nodes arbitrary: g gs gr)
  case Nil
  then show ?case by simp
next
  case (Cons p nodes)
  obtain n e where p: "p = (n, e)"
    by (cases p) auto
  from Cons.prems(1) obtain g1 gs1 gr1
    where one: "recv_loop sr n (recv e) (g, gs, gr) = Inr (g1, gs1, gr1)"
      and rest: "node_loop sr nodes (g1, gs1, gr1) = Inr (g', gs', gr')"
    unfolding p by (auto split: sum.splits)
  from Cons.prems(4) have n: "n \<in> fst ` set sr" and sub: "set nodes \<subseteq> set sr"
    unfolding p by force+
  note c1 = recv_loop_counts [OF one Cons.prems(2,3) n, of u v]
  from c1 have k: "map fst gs1 = map fst sr" "map fst gr1 = map fst sr"
    by simp_all
  note c2 = Cons.IH [OF rest k sub]
  show ?case
    unfolding p using c1 c2 by (simp add: refs_of_def)
qed

lemma adj_initial: "adj (map (\<lambda>(i, e). (i, [])) sr) k = []"
  unfolding adj_def by (induction sr) (auto split: option.splits)

text \<open>
  What a successful run of \<^verbatim>\<open>make_graph\<close> returns: the adjacency dictionaries
  have the keys of \<^verbatim>\<open>send_recv\<close> in their order, and the edge list, the forward
  list of \<open>u\<close> and the reverse list of \<open>v\<close> each hold the pair once per reference.
\<close>

lemma make_graph_counts:
  assumes "make_graph sr = Inr (graph, graph_send, graph_recv)" and "distinct (map fst sr)"
  shows "count_list graph (u, v) = refs_between sr u v"
    and "count_list (adj graph_send u) v = refs_between sr u v"
    and "count_list (adj graph_recv v) u = refs_between sr u v"
    and "map fst graph_send = map fst sr" and "map fst graph_recv = map fst sr"
proof -
  have k: "map fst (map (\<lambda>(i, e). (i, [])) sr) = map fst sr"
    by (induction sr) auto
  note c = node_loop_counts [OF assms(1) [unfolded make_graph_def] k k subset_refl, of u v]
  from c show "count_list graph (u, v) = refs_between sr u v"
    by (simp add: refs_in_between [OF assms(2)])
  from c show "count_list (adj graph_send u) v = refs_between sr u v"
    by (simp add: refs_in_between [OF assms(2)] adj_initial)
  from c show "count_list (adj graph_recv v) u = refs_between sr u v"
    by (simp add: refs_in_between [OF assms(2)] adj_initial)
  from c show "map fst graph_send = map fst sr" "map fst graph_recv = map fst sr"
    by simp_all
qed

text \<open>
  Claim C9, as the spec states it, fails: nothing in \<^verbatim>\<open>make_graph\<close> removes
  duplicates. The node \<open>B\<close> receives the two tokens \<open>x\<close> and \<open>y\<close> of \<open>A\<close>;
  \<^verbatim>\<open>graph_send['A']\<close> is \<open>[B, B]\<close> and \<^verbatim>\<open>graph_recv['B']\<close> is
  \<open>[A, A]\<close>, two entries each and not one.
\<close>

theorem make_graph_duplicates_counterexample:
  "make_graph [(''A'', \<lparr>send = [''x'', ''y''], recv = []\<rparr>),
               (''B'', \<lparr>send = [], recv = [(''A'', ''x''), (''A'', ''y'')]\<rparr>)]
     = Inr ([(''A'', ''B''), (''A'', ''B'')],
            [(''A'', [''B'', ''B'']), (''B'', [])],
            [(''A'', []), (''B'', [''A'', ''A''])])
   \<and> adj [(''A'', [''B'', ''B'']), (''B'', [])] ''A'' = [''B'', ''B'']
   \<and> count_list (adj [(''A'', [''B'', ''B'']), (''B'', [])] ''A'') ''B'' \<noteq> 1
   \<and> count_list (adj [(''A'', []), (''B'', [''A'', ''A''])] ''B'') ''A'' \<noteq> 1"
  by (simp add: make_graph_def append_at_def adj_def)

text \<open>
  Claim C9, amended. When \<^verbatim>\<open>make_graph\<close> returns, for every pair of nodes
  \<open>(u, v)\<close> the forward list \<^verbatim>\<open>graph_send[u]\<close> holds \<open>v\<close>, the reverse list
  \<^verbatim>\<open>graph_recv[v]\<close> holds \<open>u\<close>, and the edge list holds \<open>(u, v)\<close>, each
  exactly once per recv reference of \<open>v\<close> to a token of \<open>u\<close>: several references
  between one pair are several entries in all three.
\<close>

theorem make_graph_multiplicity:
  assumes "make_graph sr = Inr (graph, graph_send, graph_recv)" and "distinct (map fst sr)"
  shows "count_list (adj graph_send u) v = refs_between sr u v
       \<and> count_list (adj graph_recv v) u = refs_between sr u v
       \<and> count_list graph (u, v) = refs_between sr u v"
  using make_graph_counts(1-3) [OF assms] by simp

theorem make_graph_multiplicity_witness:
  "make_graph [(''A'', \<lparr>send = [''x'', ''y''], recv = []\<rparr>),
               (''B'', \<lparr>send = [], recv = [(''A'', ''x''), (''A'', ''y'')]\<rparr>)]
     = Inr ([(''A'', ''B''), (''A'', ''B'')],
            [(''A'', [''B'', ''B'']), (''B'', [])],
            [(''A'', []), (''B'', [''A'', ''A''])])
   \<and> count_list (adj [(''A'', [''B'', ''B'']), (''B'', [])] ''A'') ''B'' = 2
   \<and> count_list (adj [(''A'', []), (''B'', [''A'', ''A''])] ''B'') ''A'' = 2
   \<and> count_list [(''A'', ''B''), (''A'', ''B'')] (''A'', ''B'') = 2
   \<and> refs_between [(''A'', \<lparr>send = [''x'', ''y''], recv = []\<rparr>),
               (''B'', \<lparr>send = [], recv = [(''A'', ''x''), (''A'', ''y'')]\<rparr>)] ''A'' ''B'' = 2"
proof -
  let ?sr = "[(''A'', \<lparr>send = [''x'', ''y''], recv = []\<rparr>),
               (''B'', \<lparr>send = [], recv = [(''A'', ''x''), (''A'', ''y'')]\<rparr>)]"
  have run: "make_graph ?sr
     = Inr ([(''A'', ''B''), (''A'', ''B'')],
            [(''A'', [''B'', ''B'']), (''B'', [])],
            [(''A'', []), (''B'', [''A'', ''A''])])"
    by (simp add: make_graph_def append_at_def)
  have keys: "distinct (map fst ?sr)"
    by simp
  have refs: "refs_between ?sr ''A'' ''B'' = 2"
    by (simp add: refs_between_def refs_of_def)
  from make_graph_multiplicity [OF run keys, of "''A''" "''B''"] run refs
  show ?thesis by simp
qed

section \<open>The layering scheduler: \<^verbatim>\<open>Parser.hierarchicy\<close>\<close>

text \<open>
  The first loop sorts the keys of \<^verbatim>\<open>graph_send\<close>: a node that sends to nobody
  is an end node; otherwise (\<^verbatim>\<open>elif\<close>) a node that receives from nobody is a
  start node. \<^verbatim>\<open>graph_recv[id]\<close> is read only in the second test and raises
  \<^verbatim>\<open>KeyError\<close> for a missing key.

  The \<^verbatim>\<open>while\<close> loop appends layers until \<^verbatim>\<open>collected\<close> is as long as
  the dictionary. Nothing bounds the number of rounds, so the loop is a partial function:
  \<open>None\<close> is the run that never leaves the loop. \<^verbatim>\<open>find_layers\<close> is the code
  up to the comment \<^verbatim>\<open># validate layers\<close>, with the end nodes the validation
  needs; \<^verbatim>\<open>hierarchicy\<close> adds the validation.
\<close>

fun start_end_nodes ::
  "'n adjacency \<Rightarrow> 'n adjacency \<Rightarrow> 'n list \<times> 'n list \<Rightarrow> py_error + 'n list \<times> 'n list" where
  "start_end_nodes graph_recv [] (start_nodes, end_nodes) = Inr (start_nodes, end_nodes)"
| "start_end_nodes graph_recv ((i, sends) # rest) (start_nodes, end_nodes) =
     (if length sends = 0 then start_end_nodes graph_recv rest (start_nodes, end_nodes @ [i])
      else case map_of graph_recv i of
             None \<Rightarrow> Inl KeyError
           | Some recvs \<Rightarrow>
               if length recvs = 0
               then start_end_nodes graph_recv rest (start_nodes @ [i], end_nodes)
               else start_end_nodes graph_recv rest (start_nodes, end_nodes))"

definition next_layer :: "'n adjacency \<Rightarrow> 'n list \<Rightarrow> 'n list" where
  "next_layer graph_recv collected =
     map fst (filter (\<lambda>(i, recvs). i \<notin> set collected \<and> set recvs \<subseteq> set collected) graph_recv)"

partial_function (option) layer_loop ::
  "'n adjacency \<Rightarrow> 'n adjacency \<Rightarrow> 'n list list \<Rightarrow> 'n list \<Rightarrow> 'n list list option" where
  "layer_loop graph_send graph_recv layers collected =
     (if length collected < length graph_send
      then layer_loop graph_send graph_recv
             (layers @ [next_layer graph_recv collected]) (collected @ next_layer graph_recv collected)
      else Some layers)"

definition find_layers ::
  "'n adjacency \<Rightarrow> 'n adjacency \<Rightarrow> (py_error + 'n list \<times> 'n list list) option" where
  "find_layers graph_send graph_recv =
     (case start_end_nodes graph_recv graph_send ([], []) of
        Inl err \<Rightarrow> Some (Inl err)
      | Inr (start_nodes, end_nodes) \<Rightarrow>
          (case layer_loop graph_send graph_recv [start_nodes] start_nodes of
             None \<Rightarrow> None
           | Some layers \<Rightarrow> Some (Inr (end_nodes, layers))))"

definition hierarchicy :: "'n adjacency \<Rightarrow> 'n adjacency \<Rightarrow> (py_error + 'n list list) option" where
  "hierarchicy graph_send graph_recv =
     (case find_layers graph_send graph_recv of
        None \<Rightarrow> None
      | Some (Inl err) \<Rightarrow> Some (Inl err)
      | Some (Inr (end_nodes, layers)) \<Rightarrow>
          if set end_nodes \<noteq> set (last layers)
          then Some (Inl (ValueError NotConstructedProperly))
          else Some (Inr layers))"

declare layer_loop.simps [code]

subsection \<open>Graphs as the graph builder returns them\<close>

text \<open>
  The two dictionaries have the same keys in the same order, and \<open>u\<close> is in the reverse
  list of \<open>v\<close> exactly when \<open>v\<close> is in the forward list of \<open>u\<close>. Within the layers,
  \<open>layers_ordered\<close> says that every sender of a node stands in an earlier layer.
\<close>

definition wf_graphs :: "'n adjacency \<Rightarrow> 'n adjacency \<Rightarrow> bool" where
  "wf_graphs graph_send graph_recv \<longleftrightarrow>
     map fst graph_recv = map fst graph_send \<and> distinct (map fst graph_send)
     \<and> (\<forall>u v. u \<in> set (adj graph_recv v) \<longleftrightarrow> v \<in> set (adj graph_send u))"

definition layers_ordered :: "'n adjacency \<Rightarrow> 'n list list \<Rightarrow> bool" where
  "layers_ordered graph_recv layers \<longleftrightarrow>
     (\<forall>j < length layers. \<forall>v \<in> set (layers ! j). \<forall>u \<in> set (adj graph_recv v).
        \<exists>i < j. u \<in> set (layers ! i))"

definition start_of :: "'n adjacency \<Rightarrow> 'n adjacency \<Rightarrow> 'n list" where
  "start_of graph_send graph_recv =
     map fst (filter (\<lambda>(i, sends). sends \<noteq> [] \<and> adj graph_recv i = []) graph_send)"

definition end_of :: "'n adjacency \<Rightarrow> 'n list" where
  "end_of graph_send = map fst (filter (\<lambda>(i, sends). sends = []) graph_send)"

lemma adj_distinct: "distinct (map fst d) \<Longrightarrow> (k, ns) \<in> set d \<Longrightarrow> adj d k = ns"
  by (simp add: adj_def)

lemma adj_key: "adj d k \<noteq> [] \<Longrightarrow> k \<in> fst ` set d"
  unfolding adj_def by (cases "map_of d k") (auto dest: map_of_SomeD intro: rev_image_eqI)

lemma key_map_of: "k \<in> fst ` set d \<Longrightarrow> map_of d k = Some (adj d k)"
  unfolding adj_def by (cases "map_of d k") (auto simp: map_of_eq_None_iff)

lemma start_end_nodes_eq:
  assumes "fst ` set rest \<subseteq> fst ` set graph_recv"
  shows "start_end_nodes graph_recv rest (s, e) =
     Inr (s @ map fst (filter (\<lambda>(i, sends). sends \<noteq> [] \<and> adj graph_recv i = []) rest),
          e @ map fst (filter (\<lambda>(i, sends). sends = []) rest))"
  using assms
proof (induction rest arbitrary: s e)
  case Nil
  then show ?case by simp
next
  case (Cons p rest)
  obtain i sends where p: "p = (i, sends)"
    by (cases p) auto
  from Cons.prems have "i \<in> fst ` set graph_recv" and sub: "fst ` set rest \<subseteq> fst ` set graph_recv"
    unfolding p by simp_all
  then have "map_of graph_recv i = Some (adj graph_recv i)"
    by (simp add: key_map_of)
  with Cons.IH [OF sub] show ?case
    unfolding p by simp
qed

lemma set_next_layer:
  assumes "distinct (map fst graph_recv)"
  shows "set (next_layer graph_recv collected) =
     {i \<in> fst ` set graph_recv. i \<notin> set collected \<and> set (adj graph_recv i) \<subseteq> set collected}"
proof -
  have "\<And>i ns. (i, ns) \<in> set graph_recv \<Longrightarrow> adj graph_recv i = ns"
    using assms by (rule adj_distinct)
  then show ?thesis
    unfolding next_layer_def by (auto simp: image_iff)
qed

lemma distinct_next_layer:
  "distinct (map fst graph_recv) \<Longrightarrow> distinct (next_layer graph_recv collected)"
  unfolding next_layer_def by (rule distinct_map_filter)

lemma finite_edges: "finite (edges graph)"
proof -
  have "edges graph \<subseteq> fst ` set graph \<times> \<Union> (set ` snd ` set graph)"
  proof
    fix e assume "e \<in> edges graph"
    then obtain u w where e: "e = (u, w)" and w: "w \<in> set (adj graph u)"
      by (auto simp: edges_def)
    from w have "adj graph u \<noteq> []" by auto
    then have "u \<in> fst ` set graph" by (rule adj_key)
    moreover from w adj_subset [of graph u] have "w \<in> \<Union> (set ` snd ` set graph)" by blast
    ultimately show "e \<in> fst ` set graph \<times> \<Union> (set ` snd ` set graph)"
      unfolding e by simp
  qed
  then show ?thesis
    by (rule finite_subset) simp
qed

lemma wf_edges:
  assumes "\<not> has_cycle graph"
  shows "wf (edges graph)"
proof -
  from assms have "acyclic (edges graph)"
    by (simp add: has_cycle_def acyclic_def)
  with finite_edges show ?thesis
    by (rule finite_acyclic_wf)
qed

lemma next_layer_nonempty:
  assumes wf: "wf_graphs graph_send graph_recv" and acyc: "\<not> has_cycle graph_send"
    and sub: "set collected \<subseteq> fst ` set graph_send" and more: "x \<in> fst ` set graph_send" "x \<notin> set collected"
  shows "next_layer graph_recv collected \<noteq> []"
proof -
  let ?U = "fst ` set graph_send - set collected"
  from more have "x \<in> ?U" by simp
  with wf_edges [OF acyc] obtain m where m: "m \<in> ?U"
    and least: "\<And>y. (y, m) \<in> edges graph_send \<Longrightarrow> y \<notin> ?U"
    by (rule wfE_min) blast
  have "set (adj graph_recv m) \<subseteq> set collected"
  proof
    fix y assume "y \<in> set (adj graph_recv m)"
    with wf have y: "m \<in> set (adj graph_send y)"
      by (simp add: wf_graphs_def)
    then have "(y, m) \<in> edges graph_send"
      by (simp add: edges_def)
    from least [OF this] have "y \<notin> ?U" .
    moreover from y have "y \<in> fst ` set graph_send"
      by (intro adj_key) auto
    ultimately show "y \<in> set collected" by simp
  qed
  moreover from wf have keys: "fst ` set graph_recv = fst ` set graph_send"
    and "distinct (map fst graph_recv)"
    unfolding wf_graphs_def by (metis set_map, metis)
  ultimately have "m \<in> set (next_layer graph_recv collected)"
    using m by (simp add: set_next_layer)
  then show ?thesis by auto
qed

lemma ordered_append:
  assumes "layers_ordered graph_recv layers"
    and "\<forall>v \<in> set nl. set (adj graph_recv v) \<subseteq> set (concat layers)"
  shows "layers_ordered graph_recv (layers @ [nl])"
  unfolding layers_ordered_def
proof (intro allI impI ballI)
  fix j v u
  assume j: "j < length (layers @ [nl])" and v: "v \<in> set ((layers @ [nl]) ! j)"
    and u: "u \<in> set (adj graph_recv v)"
  show "\<exists>i<j. u \<in> set ((layers @ [nl]) ! i)"
  proof (cases "j < length layers")
    case True
    with v have "v \<in> set (layers ! j)"
      by (simp add: nth_append)
    with assms(1) True u have "\<exists>i<j. u \<in> set (layers ! i)"
      unfolding layers_ordered_def by blast
    then obtain i where i: "i < j" "u \<in> set (layers ! i)"
      by blast
    with True have "u \<in> set ((layers @ [nl]) ! i)"
      by (simp add: nth_append)
    with i(1) show ?thesis by blast
  next
    case False
    with j have j': "j = length layers" by simp
    with v have "v \<in> set nl" by simp
    with assms(2) u have "u \<in> set (concat layers)" by blast
    then obtain l where l: "l \<in> set layers" "u \<in> set l" by auto
    from l(1) obtain i where "i < length layers" "layers ! i = l"
      unfolding in_set_conv_nth by blast
    with l(2) have "i < j \<and> u \<in> set ((layers @ [nl]) ! i)"
      unfolding j' by (simp add: nth_append)
    then show ?thesis by blast
  qed
qed

lemma layer_loop_result:
  assumes wf: "wf_graphs graph_send graph_recv" and acyc: "\<not> has_cycle graph_send"
    and "collected = concat layers" and "distinct collected"
    and "set collected \<subseteq> fst ` set graph_send" and "layers_ordered graph_recv layers" and "layers \<noteq> []"
  shows "\<exists>final. layer_loop graph_send graph_recv layers collected = Some final
           \<and> hd final = hd layers \<and> distinct (concat final)
           \<and> set (concat final) = fst ` set graph_send \<and> layers_ordered graph_recv final"
  using assms(3-)
proof (induction "length graph_send - length collected" arbitrary: layers collected rule: less_induct)
  case less
  from wf have kk: "map fst graph_recv = map fst graph_send" and dk: "distinct (map fst graph_send)"
    unfolding wf_graphs_def by simp_all
  from kk dk have dr: "distinct (map fst graph_recv)"
    by simp
  from kk have "set (map fst graph_recv) = set (map fst graph_send)"
    by simp
  then have keys: "fst ` set graph_recv = fst ` set graph_send"
    by simp
  from distinct_card [OF dk] have card_keys: "card (fst ` set graph_send) = length graph_send"
    by simp
  from less.prems(2) have card_coll: "card (set collected) = length collected"
    by (rule distinct_card)
  show ?case
  proof (cases "length collected < length graph_send")
    case False
    with card_keys card_coll have "card (fst ` set graph_send) \<le> card (set collected)"
      by simp
    with less.prems(3) have "set collected = fst ` set graph_send"
      by (intro card_seteq) simp_all
    moreover have "layer_loop graph_send graph_recv layers collected = Some layers"
      using False by (subst layer_loop.simps) simp
    ultimately show ?thesis
      using less.prems by simp
  next
    case True
    let ?nl = "next_layer graph_recv collected"
    from True card_keys card_coll have "set collected \<noteq> fst ` set graph_send"
      by auto
    with less.prems(3) obtain x where "x \<in> fst ` set graph_send" "x \<notin> set collected"
      by blast
    from next_layer_nonempty [OF wf acyc less.prems(3) this] have ne: "?nl \<noteq> []" .
    with True have dec: "length graph_send - length (collected @ ?nl) < length graph_send - length collected"
      by (cases ?nl) auto
    have nl: "set ?nl = {i \<in> fst ` set graph_send. i \<notin> set collected \<and> set (adj graph_recv i) \<subseteq> set collected}"
      using set_next_layer [OF dr, of collected] keys by simp
    have 1: "collected @ ?nl = concat (layers @ [?nl])"
      using less.prems(1) by simp
    have 2: "distinct (collected @ ?nl)"
      using less.prems(2) distinct_next_layer [OF dr, of collected] nl by auto
    have 3: "set (collected @ ?nl) \<subseteq> fst ` set graph_send"
      using less.prems(3) nl by auto
    have 4: "layers_ordered graph_recv (layers @ [?nl])"
      using less.prems(4) nl less.prems(1) by (intro ordered_append) auto
    have 5: "layers @ [?nl] \<noteq> []" by simp
    have "layer_loop graph_send graph_recv layers collected
        = layer_loop graph_send graph_recv (layers @ [?nl]) (collected @ ?nl)"
      using True by (subst layer_loop.simps) simp
    with less.hyps [OF dec 1 2 3 4 5] less.prems(5) show ?thesis
      by simp
  qed
qed

lemma set_start_of:
  assumes "distinct (map fst graph_send)"
  shows "set (start_of graph_send graph_recv) =
     {i \<in> fst ` set graph_send. adj graph_recv i = [] \<and> adj graph_send i \<noteq> []}"
proof -
  have "\<And>i ns. (i, ns) \<in> set graph_send \<Longrightarrow> adj graph_send i = ns"
    using assms by (rule adj_distinct)
  then show ?thesis
    unfolding start_of_def by (auto simp: image_iff)
qed

lemma set_end_of:
  assumes "distinct (map fst graph_send)"
  shows "set (end_of graph_send) = {i \<in> fst ` set graph_send. adj graph_send i = []}"
proof -
  have "\<And>i ns. (i, ns) \<in> set graph_send \<Longrightarrow> adj graph_send i = ns"
    using assms by (rule adj_distinct)
  then show ?thesis
    unfolding end_of_def by (auto simp: image_iff)
qed

lemma find_layers_result:
  assumes wf: "wf_graphs graph_send graph_recv" and acyc: "\<not> has_cycle graph_send"
  shows "\<exists>layers. find_layers graph_send graph_recv = Some (Inr (end_of graph_send, layers))
           \<and> hd layers = start_of graph_send graph_recv \<and> distinct (concat layers)
           \<and> set (concat layers) = fst ` set graph_send \<and> layers_ordered graph_recv layers"
proof -
  let ?s = "start_of graph_send graph_recv"
  from wf have kk: "map fst graph_recv = map fst graph_send" and dk: "distinct (map fst graph_send)"
    unfolding wf_graphs_def by simp_all
  from kk have "set (map fst graph_send) \<subseteq> set (map fst graph_recv)"
    by simp
  then have "fst ` set graph_send \<subseteq> fst ` set graph_recv"
    by simp
  from start_end_nodes_eq [OF this, of "[]" "[]"]
  have se: "start_end_nodes graph_recv graph_send ([], []) = Inr (?s, end_of graph_send)"
    by (simp add: start_of_def end_of_def)
  have 1: "?s = concat [?s]" by simp
  have 2: "distinct ?s"
    unfolding start_of_def using dk by (rule distinct_map_filter)
  have 3: "set ?s \<subseteq> fst ` set graph_send"
    by (simp add: set_start_of [OF dk])
  have 4: "layers_ordered graph_recv [?s]"
    by (simp add: layers_ordered_def set_start_of [OF dk])
  from layer_loop_result [OF wf acyc 1 2 3 4] obtain layers
    where "layer_loop graph_send graph_recv [?s] ?s = Some layers" and "hd layers = ?s"
      and "distinct (concat layers)" and "set (concat layers) = fst ` set graph_send"
      and "layers_ordered graph_recv layers"
    by auto
  then show ?thesis
    by (simp add: find_layers_def se)
qed

lemma ordered_edge:
  assumes "layers_ordered graph_recv layers" and "u \<in> set (adj graph_recv v)" and "v \<in> set (concat layers)"
  shows "\<exists>i j. i < j \<and> j < length layers \<and> u \<in> set (layers ! i) \<and> v \<in> set (layers ! j)"
proof -
  from assms(3) obtain l where l: "l \<in> set layers" "v \<in> set l" by auto
  from l(1) obtain j where j: "j < length layers" "layers ! j = l"
    unfolding in_set_conv_nth by blast
  with l(2) assms(1,2) have "\<exists>i<j. u \<in> set (layers ! i)"
    unfolding layers_ordered_def by blast
  with j l(2) show ?thesis by blast
qed

lemma make_graph_wf:
  assumes "make_graph sr = Inr (graph, graph_send, graph_recv)" and "distinct (map fst sr)"
  shows "wf_graphs graph_send graph_recv"
    and "fst ` set graph_send = fst ` set sr"
    and "(u, v) \<in> set graph \<longleftrightarrow> u \<in> set (adj graph_recv v)"
proof -
  note c = make_graph_counts [OF assms]
  have in_iff: "\<And>xs (x::'a). x \<in> set xs \<longleftrightarrow> count_list xs x \<noteq> 0"
    by (simp add: count_list_0_iff)
  have in_iff2: "\<And>xs (x::'a \<times> 'a). x \<in> set xs \<longleftrightarrow> count_list xs x \<noteq> 0"
    by (simp add: count_list_0_iff)
  have "\<And>u v. u \<in> set (adj graph_recv v) \<longleftrightarrow> v \<in> set (adj graph_send u)"
    unfolding in_iff c(2,3) ..
  with c(4,5) assms(2) show "wf_graphs graph_send graph_recv"
    by (simp add: wf_graphs_def)
  from c(4) have "set (map fst graph_send) = set (map fst sr)" by simp
  then show "fst ` set graph_send = fst ` set sr" by simp
  show "(u, v) \<in> set graph \<longleftrightarrow> u \<in> set (adj graph_recv v)"
    unfolding in_iff in_iff2 c(1,3) ..
qed

lemma layer_loop_prefix:
  assumes run: "layer_loop graph_send graph_recv layers collected = Some final"
  shows "\<exists>more. final = layers @ more"
proof (rule layer_loop.raw_induct
    [where P = "\<lambda>gs gr ls coll fin. \<exists>more. fin = ls @ more", OF _ run])
  fix loop :: "'a adjacency \<Rightarrow> 'a adjacency \<Rightarrow> 'a list list \<Rightarrow> 'a list \<Rightarrow> 'a list list option"
    and gs gr ls coll fin
  assume IH: "\<And>a b c d y. loop a b c d = Some y \<Longrightarrow> \<exists>more. y = c @ more"
    and body: "(if length coll < length gs
      then loop gs gr (ls @ [next_layer gr coll]) (coll @ next_layer gr coll)
      else Some ls) = Some fin"
  show "\<exists>more. fin = ls @ more"
  proof (cases "length coll < length gs")
    case True
    with body have "loop gs gr (ls @ [next_layer gr coll]) (coll @ next_layer gr coll) = Some fin"
      by simp
    from IH [OF this] show ?thesis by auto
  next
    case False
    with body show ?thesis by simp
  qed
qed

lemma layer_loop_second:
  assumes "layer_loop graph_send graph_recv [start] start = Some layers"
    and "length start < length graph_send"
  shows "1 < length layers \<and> layers ! 1 = next_layer graph_recv start"
proof -
  from assms have "layer_loop graph_send graph_recv
      ([start] @ [next_layer graph_recv start]) (start @ next_layer graph_recv start) = Some layers"
    by (subst (asm) layer_loop.simps) simp
  from layer_loop_prefix [OF this] obtain more
    where "layers = [start, next_layer graph_recv start] @ more"
    by auto
  then show ?thesis by simp
qed

lemma find_layers_loop:
  assumes "wf_graphs graph_send graph_recv"
    and "find_layers graph_send graph_recv = Some (Inr (end_nodes, layers))"
  shows "layer_loop graph_send graph_recv
           [start_of graph_send graph_recv] (start_of graph_send graph_recv) = Some layers"
proof -
  from assms(1) have "set (map fst graph_send) \<subseteq> set (map fst graph_recv)"
    by (simp add: wf_graphs_def)
  then have "fst ` set graph_send \<subseteq> fst ` set graph_recv"
    by simp
  from start_end_nodes_eq [OF this, of "[]" "[]"]
  have "start_end_nodes graph_recv graph_send ([], [])
      = Inr (start_of graph_send graph_recv, end_of graph_send)"
    by (simp add: start_of_def end_of_def)
  with assms(2) show ?thesis
    by (simp add: find_layers_def split: option.splits)
qed

lemma isolated_second_layer:
  assumes wf: "wf_graphs graph_send graph_recv"
    and fl: "find_layers graph_send graph_recv = Some (Inr (end_nodes, layers))"
    and v: "v \<in> fst ` set graph_send" "adj graph_recv v = []" "adj graph_send v = []"
  shows "1 < length layers \<and> v \<in> set (layers ! 1)"
proof -
  let ?s = "start_of graph_send graph_recv"
  from wf have kk: "map fst graph_recv = map fst graph_send" and dk: "distinct (map fst graph_send)"
    by (simp_all add: wf_graphs_def)
  from kk dk have dr: "distinct (map fst graph_recv)"
    by simp
  from kk have "set (map fst graph_recv) = set (map fst graph_send)"
    by simp
  then have keys: "fst ` set graph_recv = fst ` set graph_send"
    by simp
  from v have notin: "v \<notin> set ?s"
    by (simp add: set_start_of [OF dk])
  have "distinct ?s"
    unfolding start_of_def using dk by (rule distinct_map_filter)
  then have "length ?s = card (set ?s)"
    by (simp add: distinct_card)
  also have "set ?s \<subset> fst ` set graph_send"
    using v(1) notin by (auto simp: set_start_of [OF dk])
  then have "card (set ?s) < card (fst ` set graph_send)"
    by (intro psubset_card_mono) simp_all
  also from distinct_card [OF dk] have "card (fst ` set graph_send) = length graph_send"
    by simp
  finally have short: "length ?s < length graph_send" .
  from layer_loop_second [OF find_layers_loop [OF wf fl] short]
  have "1 < length layers" and "layers ! 1 = next_layer graph_recv ?s"
    by simp_all
  moreover from v notin keys have "v \<in> set (next_layer graph_recv ?s)"
    by (simp add: set_next_layer [OF dr])
  ultimately show ?thesis by simp
qed

text \<open>
  Claim C2. Let the graph builder return \<open>(graph, graph_send, graph_recv)\<close> for a
  send/recv dictionary, and let the cycle detector return \<^verbatim>\<open>False\<close> on
  \<open>graph_send\<close>. Then the loops of \<^verbatim>\<open>hierarchicy\<close> end with layers in which
  every edge \<open>(u, v)\<close> of the edge list has \<open>u\<close> in a layer of strictly smaller index
  than \<open>v\<close>, and every node id occurs exactly once in the concatenation of the layers.
  \<^verbatim>\<open>hierarchicy\<close> returns these layers when the last layer is, as a set, the set of
  nodes with an empty forward list, and raises the \<^verbatim>\<open>ValueError\<close> "not constructed
  properly" otherwise.
\<close>

theorem hierarchicy_topological:
  assumes "make_graph sr = Inr (graph, graph_send, graph_recv)" and "distinct (map fst sr)"
    and "cycle_in_graph graph_send = Inr False"
  shows "\<exists>end_nodes layers.
      find_layers graph_send graph_recv = Some (Inr (end_nodes, layers))
    \<and> (\<forall>(u, v) \<in> set graph.
          \<exists>i j. i < j \<and> j < length layers \<and> u \<in> set (layers ! i) \<and> v \<in> set (layers ! j))
    \<and> distinct (concat layers) \<and> set (concat layers) = fst ` set sr
    \<and> hierarchicy graph_send graph_recv =
        Some (if set (last layers) = {v \<in> fst ` set sr. adj graph_send v = []}
              then Inr layers else Inl (ValueError NotConstructedProperly))"
proof -
  note wf = make_graph_wf [OF assms(1,2)]
  from assms(3) have acyc: "\<not> has_cycle graph_send"
    by (simp add: cycle_in_graph_correct)
  from wf(1) have dk: "distinct (map fst graph_send)"
    by (simp add: wf_graphs_def)
  from find_layers_result [OF wf(1) acyc] obtain layers
    where fl: "find_layers graph_send graph_recv = Some (Inr (end_of graph_send, layers))"
      and dist: "distinct (concat layers)" and all: "set (concat layers) = fst ` set graph_send"
      and ord: "layers_ordered graph_recv layers"
    by blast
  have edges: "\<forall>(u, v) \<in> set graph.
      \<exists>i j. i < j \<and> j < length layers \<and> u \<in> set (layers ! i) \<and> v \<in> set (layers ! j)"
  proof (clarify)
    fix u v assume "(u, v) \<in> set graph"
    then have u: "u \<in> set (adj graph_recv v)"
      by (simp add: wf(3))
    then have "adj graph_recv v \<noteq> []" by auto
    then have "v \<in> fst ` set graph_recv" by (rule adj_key)
    moreover from wf(1) have "set (map fst graph_recv) = set (map fst graph_send)"
      by (simp add: wf_graphs_def)
    ultimately have "v \<in> set (concat layers)"
      unfolding all by simp
    from ordered_edge [OF ord u this]
    show "\<exists>i j. i < j \<and> j < length layers \<and> u \<in> set (layers ! i) \<and> v \<in> set (layers ! j)" .
  qed
  have sinks: "set (end_of graph_send) = {v \<in> fst ` set sr. adj graph_send v = []}"
    using set_end_of [OF dk] wf(2) by simp
  have "hierarchicy graph_send graph_recv =
        Some (if set (last layers) = {v \<in> fst ` set sr. adj graph_send v = []}
              then Inr layers else Inl (ValueError NotConstructedProperly))"
    unfolding hierarchicy_def fl sinks [symmetric] by auto
  with fl edges dist all wf(2) show ?thesis
    by auto
qed

theorem hierarchicy_topological_witness:
  "make_graph [(''A'', \<lparr>send = [''x''], recv = []\<rparr>),
               (''B'', \<lparr>send = [''y''], recv = [(''A'', ''x'')]\<rparr>),
               (''C'', \<lparr>send = [], recv = [(''B'', ''y'')]\<rparr>)]
     = Inr ([(''A'', ''B''), (''B'', ''C'')],
            [(''A'', [''B'']), (''B'', [''C'']), (''C'', [])],
            [(''A'', []), (''B'', [''A'']), (''C'', [''B''])])
   \<and> cycle_in_graph [(''A'', [''B'']), (''B'', [''C'']), (''C'', [])] = Inr False
   \<and> hierarchicy [(''A'', [''B'']), (''B'', [''C'']), (''C'', [])]
                   [(''A'', []), (''B'', [''A'']), (''C'', [''B''])]
       = Some (Inr [[''A''], [''B''], [''C'']])
   \<and> (\<exists>end_nodes layers.
        find_layers [(''A'', [''B'']), (''B'', [''C'']), (''C'', [])]
                    [(''A'', []), (''B'', [''A'']), (''C'', [''B''])]
          = Some (Inr (end_nodes, layers))
      \<and> distinct (concat layers) \<and> set (concat layers) = {''A'', ''B'', ''C''}
      \<and> hierarchicy [(''A'', [''B'']), (''B'', [''C'']), (''C'', [])]
                      [(''A'', []), (''B'', [''A'']), (''C'', [''B''])]
          = Some (if set (last layers) = {''C''} then Inr layers
                  else Inl (ValueError NotConstructedProperly)))"
proof -
  let ?sr = "[(''A'', \<lparr>send = [''x''], recv = []\<rparr>),
               (''B'', \<lparr>send = [''y''], recv = [(''A'', ''x'')]\<rparr>),
               (''C'', \<lparr>send = [], recv = [(''B'', ''y'')]\<rparr>)]"
  let ?gs = "[(''A'', [''B'']), (''B'', [''C'']), (''C'', [])]"
  let ?gr = "[(''A'', []), (''B'', [''A'']), (''C'', [''B''])]"
  have run: "make_graph ?sr = Inr ([(''A'', ''B''), (''B'', ''C'')], ?gs, ?gr)"
    by (simp add: make_graph_def append_at_def)
  have keys: "distinct (map fst ?sr)"
    by simp
  have acyc: "cycle_in_graph ?gs = Inr False"
    by (simp add: cycle_in_graph_def adj_def)
  have res: "hierarchicy ?gs ?gr = Some (Inr [[''A''], [''B''], [''C'']])"
    by code_simp
  have sinks: "{v \<in> fst ` set ?sr. adj ?gs v = []} = {''C''}"
    by (auto simp: adj_def)
  have ids: "fst ` set ?sr = {''A'', ''B'', ''C''}"
    by auto
  from hierarchicy_topological [OF run keys acyc] obtain end_nodes layers
    where 1: "find_layers ?gs ?gr = Some (Inr (end_nodes, layers))"
      and 2: "distinct (concat layers)" and 3: "set (concat layers) = fst ` set ?sr"
      and 4: "hierarchicy ?gs ?gr =
        Some (if set (last layers) = {v \<in> fst ` set ?sr. adj ?gs v = []}
              then Inr layers else Inl (ValueError NotConstructedProperly))"
    by (elim exE conjE)
  have "find_layers ?gs ?gr = Some (Inr (end_nodes, layers))
      \<and> distinct (concat layers) \<and> set (concat layers) = {''A'', ''B'', ''C''}
      \<and> hierarchicy ?gs ?gr
          = Some (if set (last layers) = {''C''} then Inr layers
                  else Inl (ValueError NotConstructedProperly))"
    using 1 2 3 [unfolded ids] 4 [unfolded sinks] by (intro conjI)
  then have "\<exists>end_nodes layers. find_layers ?gs ?gr = Some (Inr (end_nodes, layers))
      \<and> distinct (concat layers) \<and> set (concat layers) = {''A'', ''B'', ''C''}
      \<and> hierarchicy ?gs ?gr
          = Some (if set (last layers) = {''C''} then Inr layers
                  else Inl (ValueError NotConstructedProperly))"
    by (intro exI)
  with run acyc res show ?thesis
    by (intro conjI)
qed

text \<open>
  Claim C5, as the spec states it, fails. The node \<open>C\<close> neither sends nor receives: its
  reverse adjacency list is empty, but the first test of the loop makes it an end node and
  the \<^verbatim>\<open>elif\<close> is never reached, so it is not in the first layer; the
  \<^verbatim>\<open>while\<close> loop puts it into the second.
\<close>

theorem hierarchicy_first_layer_counterexample:
  "make_graph [(''A'', \<lparr>send = [''x''], recv = []\<rparr>),
               (''B'', \<lparr>send = [], recv = [(''A'', ''x'')]\<rparr>),
               (''C'', \<lparr>send = [], recv = []\<rparr>)]
     = Inr ([(''A'', ''B'')],
            [(''A'', [''B'']), (''B'', []), (''C'', [])],
            [(''A'', []), (''B'', [''A'']), (''C'', [])])
   \<and> cycle_in_graph [(''A'', [''B'']), (''B'', []), (''C'', [])] = Inr False
   \<and> hierarchicy [(''A'', [''B'']), (''B'', []), (''C'', [])]
                   [(''A'', []), (''B'', [''A'']), (''C'', [])]
       = Some (Inr [[''A''], [''B'', ''C'']])
   \<and> adj [(''A'', []), (''B'', [''A'']), (''C'', [])] ''C'' = []
   \<and> ''C'' \<notin> set (hd [[''A''], [''B'', ''C'']])"
proof -
  have "hierarchicy [(''A'', [''B'']), (''B'', []), (''C'', [])]
                   [(''A'', []), (''B'', [''A'']), (''C'', [])]
       = Some (Inr [[''A''], [''B'', ''C'']])"
    by code_simp
  moreover have "make_graph [(''A'', \<lparr>send = [''x''], recv = []\<rparr>),
               (''B'', \<lparr>send = [], recv = [(''A'', ''x'')]\<rparr>),
               (''C'', \<lparr>send = [], recv = []\<rparr>)]
     = Inr ([(''A'', ''B'')],
            [(''A'', [''B'']), (''B'', []), (''C'', [])],
            [(''A'', []), (''B'', [''A'']), (''C'', [])])"
    by (simp add: make_graph_def append_at_def)
  moreover have "cycle_in_graph [(''A'', [''B'']), (''B'', []), (''C'', [])] = Inr False"
    by (simp add: cycle_in_graph_def adj_def)
  ultimately show ?thesis
    by (simp add: adj_def)
qed

text \<open>
  Claim C5, amended. For an acyclic graph returned by the graph builder, the first layer
  is, as a set, the set of node ids whose reverse adjacency list is empty and whose forward
  adjacency list is not empty: a node without outgoing edges is an end node and is not in
  the first layer. A node that neither receives nor sends is in the second layer.
  \<^verbatim>\<open>hierarchicy\<close> returns these layers when the last layer is the set of nodes
  with an empty forward list, and raises the validation error otherwise.
\<close>

theorem hierarchicy_first_layer:
  assumes "make_graph sr = Inr (graph, graph_send, graph_recv)" and "distinct (map fst sr)"
    and "cycle_in_graph graph_send = Inr False"
  shows "\<exists>end_nodes layers.
      find_layers graph_send graph_recv = Some (Inr (end_nodes, layers))
    \<and> set (hd layers) = {v \<in> fst ` set sr. adj graph_recv v = [] \<and> adj graph_send v \<noteq> []}
    \<and> (\<forall>v \<in> fst ` set sr. adj graph_recv v = [] \<and> adj graph_send v = []
          \<longrightarrow> 1 < length layers \<and> v \<in> set (layers ! 1))
    \<and> hierarchicy graph_send graph_recv =
        Some (if set (last layers) = {v \<in> fst ` set sr. adj graph_send v = []}
              then Inr layers else Inl (ValueError NotConstructedProperly))"
proof -
  note wf = make_graph_wf [OF assms(1,2)]
  from assms(3) have acyc: "\<not> has_cycle graph_send"
    by (simp add: cycle_in_graph_correct)
  from wf(1) have dk: "distinct (map fst graph_send)"
    by (simp add: wf_graphs_def)
  from find_layers_result [OF wf(1) acyc] obtain layers
    where fl: "find_layers graph_send graph_recv = Some (Inr (end_of graph_send, layers))"
      and hd: "hd layers = start_of graph_send graph_recv"
    by blast
  have first: "set (hd layers) = {v \<in> fst ` set sr. adj graph_recv v = [] \<and> adj graph_send v \<noteq> []}"
    unfolding hd using set_start_of [OF dk, of graph_recv] wf(2) by simp
  have second: "\<forall>v \<in> fst ` set sr. adj graph_recv v = [] \<and> adj graph_send v = []
          \<longrightarrow> 1 < length layers \<and> v \<in> set (layers ! 1)"
    using isolated_second_layer [OF wf(1) fl] wf(2) by blast
  have sinks: "set (end_of graph_send) = {v \<in> fst ` set sr. adj graph_send v = []}"
    using set_end_of [OF dk] wf(2) by simp
  have res: "hierarchicy graph_send graph_recv =
        Some (if set (last layers) = {v \<in> fst ` set sr. adj graph_send v = []}
              then Inr layers else Inl (ValueError NotConstructedProperly))"
    unfolding hierarchicy_def fl sinks [symmetric] by auto
  from fl first second res show ?thesis
    by blast
qed

theorem hierarchicy_first_layer_witness:
  "\<exists>end_nodes layers.
      find_layers [(''A'', [''B'']), (''B'', []), (''C'', [])]
                  [(''A'', []), (''B'', [''A'']), (''C'', [])]
        = Some (Inr (end_nodes, layers))
    \<and> set (hd layers) = {''A''}
    \<and> 1 < length layers \<and> ''C'' \<in> set (layers ! 1)
    \<and> hierarchicy [(''A'', [''B'']), (''B'', []), (''C'', [])]
                    [(''A'', []), (''B'', [''A'']), (''C'', [])] = Some (Inr layers)"
proof -
  let ?sr = "[(''A'', \<lparr>send = [''x''], recv = []\<rparr>),
               (''B'', \<lparr>send = [], recv = [(''A'', ''x'')]\<rparr>),
               (''C'', \<lparr>send = [], recv = []\<rparr>)]"
  let ?gs = "[(''A'', [''B'']), (''B'', []), (''C'', [])]"
  let ?gr = "[(''A'', []), (''B'', [''A'']), (''C'', [])]"
  have run: "make_graph ?sr = Inr ([(''A'', ''B'')], ?gs, ?gr)"
    by (simp add: make_graph_def append_at_def)
  have keys: "distinct (map fst ?sr)"
    by simp
  have acyc: "cycle_in_graph ?gs = Inr False"
    by (simp add: cycle_in_graph_def adj_def)
  have res: "hierarchicy ?gs ?gr = Some (Inr [[''A''], [''B'', ''C'']])"
    by code_simp
  have first: "{v \<in> fst ` set ?sr. adj ?gr v = [] \<and> adj ?gs v \<noteq> []} = {''A''}"
    by (auto simp: adj_def)
  have iso: "''C'' \<in> fst ` set ?sr" "adj ?gr ''C'' = [] \<and> adj ?gs ''C'' = []"
    by (simp_all add: adj_def)
  from hierarchicy_first_layer [OF run keys acyc] obtain end_nodes layers
    where fl: "find_layers ?gs ?gr = Some (Inr (end_nodes, layers))"
      and hd: "set (hd layers) = {v \<in> fst ` set ?sr. adj ?gr v = [] \<and> adj ?gs v \<noteq> []}"
      and second: "\<forall>v \<in> fst ` set ?sr. adj ?gr v = [] \<and> adj ?gs v = []
          \<longrightarrow> 1 < length layers \<and> v \<in> set (layers ! 1)"
      and ret: "hierarchicy ?gs ?gr =
        Some (if set (last layers) = {v \<in> fst ` set ?sr. adj ?gs v = []}
              then Inr layers else Inl (ValueError NotConstructedProperly))"
    by (elim exE conjE)
  from second iso have c: "1 < length layers" "''C'' \<in> set (layers ! 1)"
    by blast+
  from ret have ok: "hierarchicy ?gs ?gr = Some (Inr layers)"
    unfolding res by (simp split: if_splits)
  have "find_layers ?gs ?gr = Some (Inr (end_nodes, layers))
    \<and> set (hd layers) = {''A''}
    \<and> 1 < length layers \<and> ''C'' \<in> set (layers ! 1)
    \<and> hierarchicy ?gs ?gr = Some (Inr layers)"
    using fl hd [unfolded first] c ok by (intro conjI)
  then show ?thesis
    by (intro exI)
qed

section \<open>The parser: \<^verbatim>\<open>Parser.serialize\<close>\<close>

subsection \<open>The input document\<close>

text \<open>
  The input is the dictionary read from the JSON file. A JSON value is a \<open>jval\<close>; a
  JSON object is an association list in the order of the file. The document has the
  shape of the data model: \<^verbatim>\<open>nodes\<close> maps node ids to blocks, a block has the
  optional keys \<^verbatim>\<open>name\<close>, \<^verbatim>\<open>library\<close>, \<^verbatim>\<open>module\<close>,
  \<^verbatim>\<open>inputs\<close>, \<^verbatim>\<open>outputs\<close>, \<^verbatim>\<open>method\<close> and \<^verbatim>\<open>wrapper_io\<close>
  (the fields \<open>b_name\<close> \<open>\<dots>\<close> \<open>b_wrapper_io\<close>, \<open>None\<close> for an absent key), and
  \<open>other_keys\<close> lists its keys outside these seven. \<^verbatim>\<open>inputs\<close>,
  \<^verbatim>\<open>outputs\<close>, \<^verbatim>\<open>wrapper_io\<close> and the \<^verbatim>\<open>inputs\<close> and
  \<^verbatim>\<open>outputs\<close> of a method are objects; their values are arbitrary. Strings are
  lists of characters with code points below 256.
\<close>

datatype jval =
    JNull | JBool bool | JNum int | JStr string
  | JList "jval list" | JDict "(string \<times> jval) list"

type_synonym jobject = "(string \<times> jval) list"

record method_block =
  m_name :: "jval option"
  m_inputs :: "jobject option"
  m_outputs :: "jobject option"

record block =
  b_name :: "jval option"
  b_library :: "jval option"
  b_module :: "jval option"
  b_inputs :: "jobject option"
  b_outputs :: "jobject option"
  b_method :: "method_block option"
  b_wrapper_io :: "jobject option"
  other_keys :: "string list"

type_synonym nodes = "(string \<times> block) list"

record input_dict =
  nodes :: "nodes option"

subsection \<open>\<^verbatim>\<open>Parser.validate_keys\<close>\<close>

definition validate_keys :: "block \<Rightarrow> py_error + unit" where
  "validate_keys block =
     (if b_name block = None then Inl (ValueError MissingName)
      else if b_library block = None then Inl (ValueError MissingLibrary)
      else if other_keys block \<noteq> [] then Inl (ValueError RedundantKeys)
      else Inr ())"

subsection \<open>The token resolver\<close>

text \<open>
  The test of the source is
  \<^verbatim>\<open>isinstance(val, str) and val[0] == '@' and val.count('@') == 2\<close>:
  \<^verbatim>\<open>val[0]\<close> raises \<^verbatim>\<open>IndexError\<close> on the empty string. A value that
  passes is split by \<^verbatim>\<open>val.strip().split('@')\<close>, and the elements 1 and 2 of the
  result are the reference. \<open>reference_of\<close> is the test and the split together:
  \<open>Some\<close> of the reference, \<open>None\<close> for a value that is no reference, or the
  exception. A send declaration is the boolean \<^verbatim>\<open>True\<close>.
\<close>

definition is_space :: "char \<Rightarrow> bool" where
  \<comment> \<open>the characters below 256 that \<^verbatim>\<open>str.isspace\<close> accepts\<close>
  "is_space c \<longleftrightarrow> of_char c \<in> {9, 10, 11, 12, 13, 28, 29, 30, 31, 32, 133, 160 :: nat}"

definition strip :: "string \<Rightarrow> string" where
  \<comment> \<open>\<^verbatim>\<open>val.strip()\<close>: leading and trailing whitespace removed\<close>
  "strip s = rev (dropWhile is_space (rev (dropWhile is_space s)))"

fun split_on :: "char \<Rightarrow> string \<Rightarrow> string list" where
  "split_on sep [] = [[]]"
| "split_on sep (c # cs) =
     (if c = sep then [] # split_on sep cs
      else (case split_on sep cs of [] \<Rightarrow> [[c]] | p # ps \<Rightarrow> (c # p) # ps))"

definition item :: "'a list \<Rightarrow> nat \<Rightarrow> py_error + 'a" where
  \<comment> \<open>\<^verbatim>\<open>xs[i]\<close> for an index \<open>i \<ge> 0\<close>\<close>
  "item xs i = (if i < length xs then Inr (xs ! i) else Inl IndexError)"

definition parse_reference :: "string \<Rightarrow> py_error + string \<times> string" where
  "parse_reference val =
     (let temp = split_on CHR ''@'' (strip val) in
      case item temp 1 of
        Inl err \<Rightarrow> Inl err
      | Inr producer \<Rightarrow>
          (case item temp 2 of Inl err \<Rightarrow> Inl err | Inr var \<Rightarrow> Inr (producer, var)))"

fun reference_of :: "jval \<Rightarrow> py_error + (string \<times> string) option" where
  "reference_of (JStr val) =
     (case val of
        [] \<Rightarrow> Inl IndexError
      | c # _ \<Rightarrow>
          if c = CHR ''@'' \<and> count_list val CHR ''@'' = 2
          then (case parse_reference val of Inl err \<Rightarrow> Inl err | Inr r \<Rightarrow> Inr (Some r))
          else Inr None)"
| "reference_of _ = Inr None"

definition is_send :: "jval \<Rightarrow> bool" where
  "is_send val \<longleftrightarrow> val = JBool True"

subsection \<open>Collecting sends and receives\<close>

text \<open>
  The three kinds of loop of \<^verbatim>\<open>serialize\<close> over the objects of a block:
  \<^verbatim>\<open>inputs\<close> (of the block and of its method) give receives, \<^verbatim>\<open>outputs\<close>
  give sends, \<^verbatim>\<open>wrapper_io\<close> gives both. \<open>if_in\<close> is the test
  \<^verbatim>\<open>if 'inputs' in block\<close>, and \<open>and_then\<close> passes on to the next loop unless
  an exception has been raised.
\<close>

type_synonym entry = "(string, string) sr_entry"

fun scan_inputs :: "jobject \<Rightarrow> entry \<Rightarrow> py_error + entry" where
  "scan_inputs [] e = Inr e"
| "scan_inputs ((var, val) # rest) e =
     (case reference_of val of
        Inl err \<Rightarrow> Inl err
      | Inr (Some r) \<Rightarrow> scan_inputs rest (e\<lparr>recv := recv e @ [r]\<rparr>)
      | Inr None \<Rightarrow> scan_inputs rest e)"

fun scan_outputs :: "jobject \<Rightarrow> entry \<Rightarrow> py_error + entry" where
  "scan_outputs [] e = Inr e"
| "scan_outputs ((var, val) # rest) e =
     (if is_send val then scan_outputs rest (e\<lparr>send := send e @ [var]\<rparr>)
      else scan_outputs rest e)"

fun scan_wrapper_io :: "jobject \<Rightarrow> entry \<Rightarrow> py_error + entry" where
  "scan_wrapper_io [] e = Inr e"
| "scan_wrapper_io ((var, val) # rest) e =
     (case reference_of val of
        Inl err \<Rightarrow> Inl err
      | Inr (Some r) \<Rightarrow> scan_wrapper_io rest (e\<lparr>recv := recv e @ [r]\<rparr>)
      | Inr None \<Rightarrow>
          if is_send val then scan_wrapper_io rest (e\<lparr>send := send e @ [var]\<rparr>)
          else scan_wrapper_io rest e)"

definition if_in :: "'s option \<Rightarrow> ('s \<Rightarrow> 'a \<Rightarrow> py_error + 'a) \<Rightarrow> 'a \<Rightarrow> py_error + 'a" where
  "if_in sec f e = (case sec of None \<Rightarrow> Inr e | Some s \<Rightarrow> f s e)"

definition and_then :: "py_error + 'a \<Rightarrow> ('a \<Rightarrow> py_error + 'b) \<Rightarrow> py_error + 'b" where
  "and_then r f = (case r of Inl err \<Rightarrow> Inl err | Inr x \<Rightarrow> f x)"

definition scan_method :: "method_block \<Rightarrow> entry \<Rightarrow> py_error + entry" where
  "scan_method method_block e =
     and_then (if_in (m_inputs method_block) scan_inputs e)
       (if_in (m_outputs method_block) scan_outputs)"

definition scan_block :: "block \<Rightarrow> py_error + entry" where
  "scan_block block =
     and_then (and_then (and_then
       (if_in (b_inputs block) scan_inputs \<lparr>send = [], recv = []\<rparr>)
       (if_in (b_outputs block) scan_outputs))
       (if_in (b_wrapper_io block) scan_wrapper_io))
       (if_in (b_method block) scan_method)"

type_synonym srs = "(string, string) send_recv"

fun scan_nodes :: "nodes \<Rightarrow> srs \<Rightarrow> py_error + srs" where
  "scan_nodes [] sr = Inr sr"
| "scan_nodes ((block_id, block) # rest) sr =
     (case validate_keys block of
        Inl err \<Rightarrow> Inl err
      | Inr _ \<Rightarrow>
          (case scan_block block of
             Inl err \<Rightarrow> Inl err
           | Inr e \<Rightarrow> scan_nodes rest (AList.update block_id e sr)))"

subsection \<open>Pruning the redundant sends, and the rest of \<^verbatim>\<open>serialize\<close>\<close>

text \<open>
  A send is redundant when no receive names it. For every redundant \<open>(id, var)\<close> the loop
  removes \<open>var\<close> from the send list of \<open>id\<close> (\<^verbatim>\<open>list.remove\<close> raises when the
  element is missing) and, in the block of \<open>id\<close>, assigns \<^verbatim>\<open>False\<close> to the key
  \<open>var\<close> of \<^verbatim>\<open>outputs\<close>, of the method's \<^verbatim>\<open>outputs\<close> and of
  \<^verbatim>\<open>wrapper_io\<close>, wherever the key exists. The document is changed in place: the
  model returns the document with the result, also when an exception is raised after the
  pruning. \<^verbatim>\<open>prettyprinter\<close> only prints, but it reads
  \<^verbatim>\<open>block['method']['name']\<close>, which raises \<^verbatim>\<open>KeyError\<close> for a method
  without a name. The result is \<open>None\<close> when the layering loop does not end.
\<close>

definition all_received_of :: "srs \<Rightarrow> (string \<times> string) list" where
  "all_received_of sr = concat (map (\<lambda>(i, e). recv e) sr)"

definition all_sent_of :: "srs \<Rightarrow> (string \<times> string) list" where
  "all_sent_of sr = concat (map (\<lambda>(i, e). map (\<lambda>token. (i, token)) (send e)) sr)"

definition redundant_of :: "srs \<Rightarrow> (string \<times> string) list" where
  "redundant_of sr = filter (\<lambda>item. item \<notin> set (all_received_of sr)) (all_sent_of sr)"

definition turn_off :: "string \<Rightarrow> jobject \<Rightarrow> jobject" where
  \<comment> \<open>\<^verbatim>\<open>if var in outputs: outputs[var] = False\<close>\<close>
  "turn_off var outputs =
     (if var \<in> fst ` set outputs then AList.update var (JBool False) outputs else outputs)"

definition turn_off_block :: "string \<Rightarrow> block \<Rightarrow> block" where
  "turn_off_block var block =
     block\<lparr>b_outputs := map_option (turn_off var) (b_outputs block),
           b_method := map_option
             (\<lambda>method. method\<lparr>m_outputs := map_option (turn_off var) (m_outputs method)\<rparr>)
             (b_method block),
           b_wrapper_io := map_option (turn_off var) (b_wrapper_io block)\<rparr>"

fun prune_loop :: "(string \<times> string) list \<Rightarrow> nodes \<Rightarrow> srs \<Rightarrow> nodes \<times> (py_error + srs)" where
  "prune_loop [] ns sr = (ns, Inr sr)"
| "prune_loop ((i, var) # rest) ns sr =
     (case map_of sr i of
        None \<Rightarrow> (ns, Inl KeyError)
      | Some e \<Rightarrow>
          if var \<notin> set (send e) then (ns, Inl (ValueError NotInList))
          else if i \<notin> fst ` set ns then (ns, Inl KeyError)
          else prune_loop rest
                 (AList.map_entry i (turn_off_block var) ns)
                 (AList.update i (e\<lparr>send := remove1 var (send e)\<rparr>) sr))"

fun prettyprinter :: "nodes \<Rightarrow> string list \<Rightarrow> py_error + unit" where
  "prettyprinter ns [] = Inr ()"
| "prettyprinter ns (i # ordered) =
     (case map_of ns i of
        None \<Rightarrow> Inl KeyError
      | Some block \<Rightarrow>
          (case b_method block of
             None \<Rightarrow> prettyprinter ns ordered
           | Some method \<Rightarrow>
               if m_name method = None then Inl KeyError else prettyprinter ns ordered))"

type_synonym parsed =
  "srs \<times> (string \<times> string) list \<times> (string \<times> string) list
   \<times> string adjacency \<times> string adjacency \<times> string list list"

definition build :: "nodes \<Rightarrow> srs \<Rightarrow> (string \<times> string) list \<Rightarrow> (py_error + parsed) option" where
  "build ns sr received =
     (case make_graph sr of
        Inl err \<Rightarrow> Some (Inl err)
      | Inr (g, gs, gr) \<Rightarrow>
          (case cycle_in_graph gs of
             Inl err \<Rightarrow> Some (Inl err)
           | Inr True \<Rightarrow> Some (Inl (ValueError CycleInGraph))
           | Inr False \<Rightarrow>
               (case hierarchicy gs gr of
                  None \<Rightarrow> None
                | Some (Inl err) \<Rightarrow> Some (Inl err)
                | Some (Inr ls) \<Rightarrow>
                    (case prettyprinter ns (concat ls) of
                       Inl err \<Rightarrow> Some (Inl err)
                     | Inr _ \<Rightarrow>
                         Some (Inr (sr, received, g, gs, gr, ls))))))"

definition serialize :: "input_dict \<Rightarrow> (input_dict \<times> (py_error + parsed)) option" where
  "serialize d =
     (case nodes d of
        None \<Rightarrow> Some (d, Inl (ValueError NotValidInput))
      | Some ns \<Rightarrow>
          (case scan_nodes ns [] of
             Inl err \<Rightarrow> Some (d, Inl err)
           | Inr sr \<Rightarrow>
               (case prune_loop (redundant_of sr) ns sr of
                  (ns', Inl err) \<Rightarrow> Some (d\<lparr>nodes := Some ns'\<rparr>, Inl err)
                | (ns', Inr sr') \<Rightarrow>
                    map_option (\<lambda>r. (d\<lparr>nodes := Some ns'\<rparr>, r))
                      (build ns' sr' (all_received_of sr)))))"

text \<open>
  The values that the reference test reads in a block: those of \<^verbatim>\<open>inputs\<close>, of
  \<^verbatim>\<open>wrapper_io\<close> and of the \<^verbatim>\<open>inputs\<close> of the method.
\<close>

definition values_of :: "jobject option \<Rightarrow> jval set" where
  "values_of sec = (case sec of None \<Rightarrow> {} | Some s \<Rightarrow> snd ` set s)"

definition reference_values :: "block \<Rightarrow> jval set" where
  "reference_values block =
     values_of (b_inputs block) \<union> values_of (b_wrapper_io block)
     \<union> (case b_method block of None \<Rightarrow> {} | Some method \<Rightarrow> values_of (m_inputs method))"

text \<open>
  Example documents. \<open>plain_node\<close> is a block with a name and a library, without module
  and method, with the given \<^verbatim>\<open>inputs\<close>, \<^verbatim>\<open>outputs\<close> and
  \<^verbatim>\<open>wrapper_io\<close>. In \<open>doc0\<close> the node \<open>B\<close> has the output \<open>y\<close>; the node
  \<open>A\<close> has the output \<open>x\<close> and, in \<^verbatim>\<open>wrapper_io\<close>, the key \<open>x\<close> with the
  reference \<^verbatim>\<open>"@B@y"\<close>. \<open>doc1\<close> and \<open>doc2\<close> are what one and two runs of
  \<^verbatim>\<open>serialize\<close> make of it.
\<close>

definition plain_node :: "jobject option \<Rightarrow> jobject option \<Rightarrow> jobject option \<Rightarrow> block" where
  "plain_node ins outs wio =
     \<lparr>b_name = Some (JStr ''f''), b_library = Some (JStr ''lib''), b_module = None,
      b_inputs = ins, b_outputs = outs, b_method = None, b_wrapper_io = wio, other_keys = []\<rparr>"

definition doc0 :: input_dict where
  "doc0 = \<lparr>nodes = Some
    [(''B'', plain_node None (Some [(''y'', JBool True)]) None),
     (''A'', plain_node None (Some [(''x'', JBool True)]) (Some [(''x'', JStr ''@B@y'')]))]\<rparr>"

definition doc1 :: input_dict where
  "doc1 = \<lparr>nodes = Some
    [(''B'', plain_node None (Some [(''y'', JBool True)]) None),
     (''A'', plain_node None (Some [(''x'', JBool False)]) (Some [(''x'', JBool False)]))]\<rparr>"

definition doc2 :: input_dict where
  "doc2 = \<lparr>nodes = Some
    [(''B'', plain_node None (Some [(''y'', JBool False)]) None),
     (''A'', plain_node None (Some [(''x'', JBool False)]) (Some [(''x'', JBool False)]))]\<rparr>"

subsection \<open>The empty string\<close>

lemma item_error: "item xs i = Inl err \<Longrightarrow> err = IndexError"
  by (simp add: item_def split: if_splits)

lemma parse_reference_error: "parse_reference val = Inl err \<Longrightarrow> err = IndexError"
  by (auto simp: parse_reference_def Let_def split: sum.splits dest: item_error)

lemma reference_of_error: "reference_of val = Inl err \<Longrightarrow> err = IndexError"
  by (cases val) (auto split: list.splits if_splits sum.splits dest: parse_reference_error)

lemma scan_inputs_error: "scan_inputs sec e = Inl err \<Longrightarrow> err = IndexError"
  by (induction sec e rule: scan_inputs.induct)
     (auto split: sum.splits option.splits dest: reference_of_error)

lemma scan_outputs_error: "scan_outputs sec e = Inl err \<Longrightarrow> err = IndexError"
  by (induction sec e rule: scan_outputs.induct) (auto split: if_splits)

lemma scan_wrapper_io_error: "scan_wrapper_io sec e = Inl err \<Longrightarrow> err = IndexError"
  by (induction sec e rule: scan_wrapper_io.induct)
     (auto split: sum.splits option.splits if_splits dest: reference_of_error)

lemma scan_inputs_empty:
  "JStr [] \<in> snd ` set sec \<Longrightarrow> scan_inputs sec e = Inl IndexError"
proof (induction sec e rule: scan_inputs.induct)
  case (1 e)
  then show ?case by simp
next
  case (2 var val rest e)
  show ?case
  proof (cases "val = JStr []")
    case True
    then show ?thesis by simp
  next
    case False
    with "2.prems" have rest: "JStr [] \<in> snd ` set rest" by auto
    show ?thesis
    proof (cases "reference_of val")
      case (Inl err)
      with reference_of_error [OF Inl] show ?thesis by simp
    next
      case (Inr r)
      with "2.IH" rest show ?thesis
        by (cases r) simp_all
    qed
  qed
qed

lemma scan_wrapper_io_empty:
  "JStr [] \<in> snd ` set sec \<Longrightarrow> scan_wrapper_io sec e = Inl IndexError"
proof (induction sec e rule: scan_wrapper_io.induct)
  case (1 e)
  then show ?case by simp
next
  case (2 var val rest e)
  show ?case
  proof (cases "val = JStr []")
    case True
    then show ?thesis by simp
  next
    case False
    with "2.prems" have rest: "JStr [] \<in> snd ` set rest" by auto
    show ?thesis
    proof (cases "reference_of val")
      case (Inl err)
      with reference_of_error [OF Inl] show ?thesis by simp
    next
      case (Inr r)
      with "2.IH" rest show ?thesis
        by (cases r) simp_all
    qed
  qed
qed

lemma scan_method_error: "scan_method method e = Inl err \<Longrightarrow> err = IndexError"
  by (auto simp: scan_method_def and_then_def if_in_def
      split: sum.splits option.splits dest: scan_inputs_error scan_outputs_error)

lemma scan_block_error: "scan_block block = Inl err \<Longrightarrow> err = IndexError"
  unfolding scan_block_def and_then_def if_in_def
  by (auto split: sum.splits option.splits
      dest: scan_inputs_error scan_outputs_error scan_wrapper_io_error scan_method_error)

lemma scan_method_empty:
  assumes "JStr [] \<in> values_of (m_inputs method)"
  shows "scan_method method e = Inl IndexError"
proof -
  from assms obtain sec where "m_inputs method = Some sec" and "JStr [] \<in> snd ` set sec"
    by (auto simp: values_of_def split: option.splits)
  then show ?thesis
    by (simp add: scan_method_def and_then_def if_in_def scan_inputs_empty)
qed

lemma scan_block_empty:
  assumes "JStr [] \<in> reference_values block"
  shows "scan_block block = Inl IndexError"
proof (cases "scan_block block")
  case (Inl err)
  with scan_block_error [OF Inl] show ?thesis by simp
next
  case (Inr e)
  then obtain e1 e2 e3
    where 1: "if_in (b_inputs block) scan_inputs \<lparr>send = [], recv = []\<rparr> = Inr e1"
      and 2: "if_in (b_outputs block) scan_outputs e1 = Inr e2"
      and 3: "if_in (b_wrapper_io block) scan_wrapper_io e2 = Inr e3"
      and 4: "if_in (b_method block) scan_method e3 = Inr e"
    unfolding scan_block_def and_then_def by (auto split: sum.splits)
  from assms consider
      (inputs) sec where "b_inputs block = Some sec" "JStr [] \<in> snd ` set sec"
    | (wrapper) sec where "b_wrapper_io block = Some sec" "JStr [] \<in> snd ` set sec"
    | (in_method) mb where "b_method block = Some mb" "JStr [] \<in> values_of (m_inputs mb)"
    unfolding reference_values_def values_of_def by (auto split: option.splits)
  then have False
  proof cases
    case inputs
    with 1 show False
      by (simp add: if_in_def scan_inputs_empty)
  next
    case wrapper
    with 3 show False
      by (simp add: if_in_def scan_wrapper_io_empty)
  next
    case in_method
    with 4 show False
      by (simp add: if_in_def scan_method_empty)
  qed
  then show ?thesis ..
qed

lemma scan_nodes_error_or:
  assumes "\<forall>(i, b) \<in> set pre. validate_keys b = Inr ()"
  shows "scan_nodes (pre @ rest) sr = Inl IndexError
       \<or> (\<exists>sr'. scan_nodes (pre @ rest) sr = scan_nodes rest sr')"
  using assms
proof (induction pre arbitrary: sr)
  case Nil
  then show ?case by auto
next
  case (Cons p pre)
  obtain i b where p: "p = (i, b)"
    by (cases p) auto
  from Cons.prems have ok: "validate_keys b = Inr ()"
    and pre: "\<forall>(i, b) \<in> set pre. validate_keys b = Inr ()"
    unfolding p by simp_all
  show ?case
  proof (cases "scan_block b")
    case (Inl err)
    with scan_block_error [OF Inl] ok show ?thesis
      unfolding p by simp
  next
    case (Inr e)
    with ok have "scan_nodes ((p # pre) @ rest) sr = scan_nodes (pre @ rest) (AList.update i e sr)"
      unfolding p by simp
    with Cons.IH [OF pre, of "AList.update i e sr"] show ?thesis
      by auto
  qed
qed

lemma scan_nodes_empty:
  assumes "\<forall>(i, b) \<in> set pre. validate_keys b = Inr ()" and "validate_keys block = Inr ()"
    and "JStr [] \<in> reference_values block"
  shows "scan_nodes (pre @ (block_id, block) # post) sr = Inl IndexError"
proof -
  have "\<And>sr'. scan_nodes ((block_id, block) # post) sr' = Inl IndexError"
    using assms(2) scan_block_empty [OF assms(3)] by simp
  with scan_nodes_error_or [OF assms(1), of "(block_id, block) # post" sr] show ?thesis
    by auto
qed

text \<open>
  Claim C6 (fails on the code). A value that is no reference should be a literal, ignored
  without any error. The empty string is a value that is no reference, and the test reads
  its first character: \<^verbatim>\<open>serialize\<close> raises \<^verbatim>\<open>IndexError\<close> on a node
  with the input \<^verbatim>\<open>"sep": ""\<close>.
\<close>

theorem reference_empty_string_raises:
  "reference_of (JStr '''') = Inl IndexError
   \<and> serialize \<lparr>nodes = Some [(''A'', plain_node (Some [(''sep'', JStr '''')]) None None)]\<rparr>
     = Some (\<lparr>nodes = Some [(''A'', plain_node (Some [(''sep'', JStr '''')]) None None)]\<rparr>,
             Inl IndexError)"
  by (simp add: serialize_def validate_keys_def plain_node_def scan_block_def and_then_def if_in_def)

text \<open>
  Claim C10, as stated, fails: the keys of a block are validated before its values are
  read, so a block without a name raises the \<^verbatim>\<open>ValueError\<close> of the validation,
  whatever its inputs hold.
\<close>

theorem serialize_empty_string_counterexample:
  "serialize \<lparr>nodes = Some [(''A'',
      \<lparr>b_name = None, b_library = Some (JStr ''lib''), b_module = None,
       b_inputs = Some [(''x'', JStr '''')], b_outputs = None, b_method = None,
       b_wrapper_io = None, other_keys = []\<rparr>)]\<rparr>
   = Some (\<lparr>nodes = Some [(''A'',
      \<lparr>b_name = None, b_library = Some (JStr ''lib''), b_module = None,
       b_inputs = Some [(''x'', JStr '''')], b_outputs = None, b_method = None,
       b_wrapper_io = None, other_keys = []\<rparr>)]\<rparr>, Inl (ValueError MissingName))"
  by (simp add: serialize_def validate_keys_def)

text \<open>
  Claim C10, amended. If the document has the key \<^verbatim>\<open>nodes\<close>, some block holds the
  empty string as a value of its \<^verbatim>\<open>inputs\<close>, its \<^verbatim>\<open>wrapper_io\<close> or the
  \<^verbatim>\<open>inputs\<close> of its method, and this block and the blocks before it pass the
  validation of their keys, then \<^verbatim>\<open>serialize\<close> raises \<^verbatim>\<open>IndexError\<close> and
  leaves the document as it was.
\<close>

theorem serialize_empty_string:
  assumes "nodes d = Some (pre @ (block_id, block) # post)"
    and "\<forall>(i, b) \<in> set pre. validate_keys b = Inr ()" and "validate_keys block = Inr ()"
    and "JStr '''' \<in> reference_values block"
  shows "serialize d = Some (d, Inl IndexError)"
  using scan_nodes_empty [OF assms(2,3,4), of block_id post "[]"] assms(1)
  by (simp add: serialize_def)

theorem serialize_empty_string_witness:
  "serialize \<lparr>nodes = Some [(''A'', plain_node None (Some [(''x'', JBool True)]) None),
                           (''B'', plain_node (Some [(''df'', JStr ''@A@x''), (''sep'', JStr '''')]) None None)]\<rparr>
   = Some (\<lparr>nodes = Some [(''A'', plain_node None (Some [(''x'', JBool True)]) None),
                           (''B'', plain_node (Some [(''df'', JStr ''@A@x''), (''sep'', JStr '''')]) None None)]\<rparr>,
           Inl IndexError)"
  by (rule serialize_empty_string
        [of _ "[(''A'', plain_node None (Some [(''x'', JBool True)]) None)]" "''B''"
            "plain_node (Some [(''df'', JStr ''@A@x''), (''sep'', JStr '''')]) None None" "[]"])
     (simp_all add: validate_keys_def plain_node_def reference_values_def values_of_def)

subsection \<open>Pruning a pruned document\<close>






text \<open>
  Claim C8 (fails on the code). The pruning should only flip redundant \<^verbatim>\<open>true\<close>
  entries and leave every other value of the document as it is. In the same document the
  entry \<open>x\<close> of the \<^verbatim>\<open>wrapper_io\<close> of \<open>A\<close> is the reference
  \<^verbatim>\<open>"@B@y"\<close>, not a \<^verbatim>\<open>true\<close> entry; after \<^verbatim>\<open>serialize\<close> it is
  \<^verbatim>\<open>False\<close>.
\<close>

theorem prune_overwrites_reference:
  "map_option fst (serialize doc0) = Some doc1
   \<and> map_option (b_wrapper_io \<circ> snd) (map_option (\<lambda>ns. ns ! 1) (nodes doc0))
       = Some (Some [(''x'', JStr ''@B@y'')])
   \<and> map_option (b_wrapper_io \<circ> snd) (map_option (\<lambda>ns. ns ! 1) (nodes doc1))
       = Some (Some [(''x'', JBool False)])"
proof -
  have "map_option fst (serialize doc0) = Some doc1"
    by code_simp
  then show ?thesis
    by (simp add: doc0_def doc1_def plain_node_def)
qed

text \<open>
  A consequence of the overwrite: \<open>doc1\<close>, the document that the run on \<open>doc0\<close> leaves, has
  lost the reference to \<open>y\<close>, so the output \<open>y\<close> of \<open>B\<close> is redundant in it, and a second
  run turns it off.
\<close>

lemma overwrite_changes_second_run:
  "serialize doc0 = Some (doc1,
     Inr ([(''B'', \<lparr>send = [''y''], recv = []\<rparr>), (''A'', \<lparr>send = [], recv = [(''B'', ''y'')]\<rparr>)],
          [(''B'', ''y'')], [(''B'', ''A'')], [(''B'', [''A'']), (''A'', [])],
          [(''B'', []), (''A'', [''B''])], [[''B''], [''A'']]))
   \<and> serialize doc1 = Some (doc2,
     Inr ([(''B'', \<lparr>send = [], recv = []\<rparr>), (''A'', \<lparr>send = [], recv = []\<rparr>)],
          [], [], [(''B'', []), (''A'', [])], [(''B'', []), (''A'', [])], [[], [''B'', ''A'']]))
   \<and> doc2 \<noteq> doc1"
proof -
  have "serialize doc0 = Some (doc1,
     Inr ([(''B'', \<lparr>send = [''y''], recv = []\<rparr>), (''A'', \<lparr>send = [], recv = [(''B'', ''y'')]\<rparr>)],
          [(''B'', ''y'')], [(''B'', ''A'')], [(''B'', [''A'']), (''A'', [])],
          [(''B'', []), (''A'', [''B''])], [[''B''], [''A'']]))"
    by code_simp
  moreover have "serialize doc1 = Some (doc2,
     Inr ([(''B'', \<lparr>send = [], recv = []\<rparr>), (''A'', \<lparr>send = [], recv = []\<rparr>)],
          [], [], [(''B'', []), (''A'', [])], [(''B'', []), (''A'', [])], [[], [''B'', ''A'']]))"
    by code_simp
  moreover have "doc2 \<noteq> doc1"
    by (simp add: doc1_def doc2_def plain_node_def)
  ultimately show ?thesis
    by (intro conjI)
qed

subsection \<open>What the token resolver does with every value\<close>

text \<open>
  \<^verbatim>\<open>strip\<close> removes no \<^verbatim>\<open>@\<close>, and \<^verbatim>\<open>split\<close> gives one part more
  than the string has separators: a string that passes the test splits into three parts,
  the first of them empty, and the reads of the elements 1 and 2 raise nothing.
\<close>

lemma count_list_dropWhile: "\<not> P c \<Longrightarrow> count_list (dropWhile P xs) c = count_list xs c"
  by (induction xs) auto

lemma not_space_at: "\<not> is_space CHR ''@''"
  by (simp add: is_space_def)

lemma count_strip: "count_list (strip s) CHR ''@'' = count_list s CHR ''@''"
  by (simp add: strip_def count_list_dropWhile not_space_at)

lemma strip_at: "strip (CHR ''@'' # cs) = CHR ''@'' # rev (dropWhile is_space (rev cs))"
  by (simp add: strip_def not_space_at dropWhile_append3)

lemma split_on_nonempty: "split_on sep s \<noteq> []"
  by (induction s) (auto split: list.splits)

lemma length_split_on: "length (split_on sep s) = Suc (count_list s sep)"
  by (induction s) (auto split: list.splits simp: split_on_nonempty)

lemma split_on_parts: "p \<in> set (split_on sep s) \<Longrightarrow> sep \<notin> set p"
  by (induction s arbitrary: p) (auto split: list.splits if_splits)

fun join_with :: "char \<Rightarrow> string list \<Rightarrow> string" where
  "join_with sep [] = []"
| "join_with sep [p] = p"
| "join_with sep (p # q # ps) = p @ sep # join_with sep (q # ps)"

lemma join_split_on: "join_with sep (split_on sep s) = s"
proof (induction s)
  case Nil
  then show ?case by simp
next
  case (Cons c cs)
  obtain p ps where sp: "split_on sep cs = p # ps"
    using split_on_nonempty [of sep cs] by (cases "split_on sep cs") auto
  with Cons show ?case
    by (cases ps) auto
qed

lemma reference_of_Some:
  assumes "val = c # cs" and "c = CHR ''@''" and "count_list val CHR ''@'' = 2"
  shows "\<exists>producer var. split_on CHR ''@'' (strip val) = [[], producer, var]
           \<and> reference_of (JStr val) = Inr (Some (producer, var))"
proof -
  let ?rest = "rev (dropWhile is_space (rev cs))"
  have st: "strip val = CHR ''@'' # ?rest"
    unfolding assms(1,2) by (rule strip_at)
  have "length (split_on CHR ''@'' (strip val)) = 3"
    by (simp add: length_split_on count_strip assms(3))
  then have "length (split_on CHR ''@'' ?rest) = 2"
    unfolding st by simp
  then obtain producer var where "split_on CHR ''@'' ?rest = [producer, var]"
    by (cases "split_on CHR ''@'' ?rest" rule: list.exhaust)
       (auto simp: length_Suc_conv)
  then have sp: "split_on CHR ''@'' (strip val) = [[], producer, var]"
    unfolding st by simp
  then have "parse_reference val = Inr (producer, var)"
    by (simp add: parse_reference_def item_def)
  with assms sp show ?thesis
    by simp
qed

lemma reference_of_SomeD:
  assumes "reference_of (JStr val) = Inr (Some (producer, var))"
  shows "val \<noteq> []" and "hd val = CHR ''@''" and "count_list val CHR ''@'' = 2"
    and "split_on CHR ''@'' (strip val) = [[], producer, var]"
proof -
  from assms obtain c cs where val: "val = c # cs"
    by (cases val) auto
  with assms have guard: "c = CHR ''@''" "count_list val CHR ''@'' = 2"
    by (auto split: if_splits)
  from reference_of_Some [OF val guard] assms
  show "split_on CHR ''@'' (strip val) = [[], producer, var]"
    by auto
  from val guard show "val \<noteq> []" "hd val = CHR ''@''" "count_list val CHR ''@'' = 2"
    by simp_all
qed

lemma reference_of_ok: "v \<noteq> JStr [] \<Longrightarrow> \<exists>r. reference_of v = Inr r"
proof (cases v)
  case (JStr val)
  assume "v \<noteq> JStr []"
  with JStr obtain c cs where val: "val = c # cs"
    by (cases val) auto
  show ?thesis
  proof (cases "c = CHR ''@'' \<and> count_list val CHR ''@'' = 2")
    case True
    with reference_of_Some [OF val] JStr show ?thesis by blast
  next
    case False
    with val JStr show ?thesis by auto
  qed
qed simp_all

text \<open>
  The resolver raises on the empty string and on nothing else. It takes a value for a
  reference exactly when the value is a non-empty string whose first character is
  \<^verbatim>\<open>@\<close> and which holds two \<^verbatim>\<open>@\<close>; the reference is then made of the
  second and third part of the stripped string, split at \<^verbatim>\<open>@\<close>. Every other
  value is no reference.
\<close>

theorem reference_of_classification:
  "(reference_of v = Inl err \<longleftrightarrow> v = JStr [] \<and> err = IndexError)
   \<and> (reference_of v = Inr (Some (producer, var)) \<longleftrightarrow>
        (\<exists>val. v = JStr val \<and> val \<noteq> [] \<and> hd val = CHR ''@'' \<and> count_list val CHR ''@'' = 2
              \<and> split_on CHR ''@'' (strip val) = [[], producer, var]))"
proof (cases v)
  case (JStr val)
  show ?thesis
  proof (cases val)
    case Nil
    with JStr show ?thesis by auto
  next
    case (Cons c cs)
    show ?thesis
    proof (cases "c = CHR ''@'' \<and> count_list val CHR ''@'' = 2")
      case True
      with reference_of_Some [OF Cons] obtain p q
        where "split_on CHR ''@'' (strip val) = [[], p, q]"
          and "reference_of (JStr val) = Inr (Some (p, q))"
        by blast
      with JStr Cons True show ?thesis
        by auto
    next
      case False
      with JStr Cons show ?thesis
        by auto
    qed
  qed
qed simp_all

theorem reference_of_classification_witness:
  "reference_of (JStr ''@ID2@df '') = Inr (Some (''ID2'', ''df''))
   \<and> split_on CHR ''@'' (strip ''@ID2@df '') = [[], ''ID2'', ''df'']
   \<and> reference_of (JStr ''@ID2@df@'') = Inr None
   \<and> reference_of (JStr ''a@b@c'') = Inr None
   \<and> reference_of (JNum 5) = Inr None
   \<and> (\<forall>err. reference_of (JStr ''@ID2@df '') \<noteq> Inl err)"
proof -
  have 1: "reference_of (JStr ''@ID2@df '') = Inr (Some (''ID2'', ''df''))"
    by (simp add: parse_reference_def strip_def is_space_def item_def)
  from reference_of_classification [of "JStr ''@ID2@df ''" _ "''ID2''" "''df''"] 1
  have 2: "split_on CHR ''@'' (strip ''@ID2@df '') = [[], ''ID2'', ''df'']"
    and 3: "\<forall>err. reference_of (JStr ''@ID2@df '') \<noteq> Inl err"
    by simp_all
  show ?thesis
    using 1 2 3 by simp
qed

text \<open>
  Parsing a reference round-trips: the stripped string is \<^verbatim>\<open>@\<close>, the producer,
  \<^verbatim>\<open>@\<close> and the variable name, and neither part holds an \<^verbatim>\<open>@\<close>.
\<close>

theorem reference_round_trip:
  assumes "reference_of (JStr val) = Inr (Some (producer, var))"
  shows "strip val = CHR ''@'' # producer @ CHR ''@'' # var
       \<and> CHR ''@'' \<notin> set producer \<and> CHR ''@'' \<notin> set var"
proof -
  from assms have sp: "split_on CHR ''@'' (strip val) = [[], producer, var]"
    by (rule reference_of_SomeD)
  from join_split_on [of "CHR ''@''" "strip val"]
  have "strip val = CHR ''@'' # producer @ CHR ''@'' # var"
    unfolding sp by simp
  moreover have "CHR ''@'' \<notin> set producer" "CHR ''@'' \<notin> set var"
    using split_on_parts [of _ "CHR ''@''" "strip val"] unfolding sp by simp_all
  ultimately show ?thesis by simp
qed

theorem reference_round_trip_witness:
  "reference_of (JStr ''@A@x'') = Inr (Some (''A'', ''x''))
   \<and> strip ''@A@x'' = CHR ''@'' # ''A'' @ CHR ''@'' # ''x''"
proof -
  have 1: "reference_of (JStr ''@A@x'') = Inr (Some (''A'', ''x''))"
    by (simp add: parse_reference_def strip_def is_space_def item_def)
  from reference_round_trip [OF 1] 1 show ?thesis
    by simp
qed

subsection \<open>What \<^verbatim>\<open>serialize\<close> leaves unchanged\<close>

text \<open>
  The document after \<^verbatim>\<open>serialize\<close> has the same node ids in the same order; in
  every block the name, the library, the module, the inputs, the other keys, and the name
  and inputs of the method are unchanged; \<^verbatim>\<open>outputs\<close>, the method's
  \<^verbatim>\<open>outputs\<close> and \<^verbatim>\<open>wrapper_io\<close> keep their keys in their order, and each
  of their values is unchanged or \<^verbatim>\<open>False\<close>.
\<close>

definition off_rel :: "jobject \<Rightarrow> jobject \<Rightarrow> bool" where
  "off_rel sec sec' \<longleftrightarrow>
     list_all2 (\<lambda>(k, v) (k', v'). k' = k \<and> (v' = v \<or> v' = JBool False)) sec sec'"

definition method_frame :: "method_block \<Rightarrow> method_block \<Rightarrow> bool" where
  "method_frame m m' \<longleftrightarrow>
     m_name m' = m_name m \<and> m_inputs m' = m_inputs m
     \<and> rel_option off_rel (m_outputs m) (m_outputs m')"

definition block_frame :: "block \<Rightarrow> block \<Rightarrow> bool" where
  "block_frame b b' \<longleftrightarrow>
     b_name b' = b_name b \<and> b_library b' = b_library b \<and> b_module b' = b_module b
     \<and> b_inputs b' = b_inputs b \<and> other_keys b' = other_keys b
     \<and> rel_option off_rel (b_outputs b) (b_outputs b')
     \<and> rel_option method_frame (b_method b) (b_method b')
     \<and> rel_option off_rel (b_wrapper_io b) (b_wrapper_io b')"

definition nodes_frame :: "nodes \<Rightarrow> nodes \<Rightarrow> bool" where
  "nodes_frame ns ns' \<longleftrightarrow> list_all2 (\<lambda>(i, b) (i', b'). i' = i \<and> block_frame b b') ns ns'"

lemma list_all2_transI:
  assumes "list_all2 R xs ys" and "list_all2 R ys zs"
    and "\<And>x y z. R x y \<Longrightarrow> R y z \<Longrightarrow> R x z"
  shows "list_all2 R xs zs"
  using assms(1,2)
proof (induction arbitrary: zs rule: list_all2_induct)
  case Nil
  then show ?case by simp
next
  case (Cons x xs y ys)
  from Cons.prems obtain z zs' where "zs = z # zs'" "R y z" "list_all2 R ys zs'"
    by (auto simp: list_all2_Cons1)
  with Cons.hyps(1) Cons.IH [of zs'] assms(3) show ?case
    by auto
qed

lemma off_rel_refl: "off_rel sec sec"
  by (auto simp: off_rel_def list_all2_same)

lemma off_rel_trans:
  assumes "off_rel a b" and "off_rel b c"
  shows "off_rel a c"
  using assms unfolding off_rel_def
  by (rule list_all2_transI) auto

lemma off_rel_update: "off_rel sec (AList.update var (JBool False) sec) \<or> var \<notin> fst ` set sec"
  by (induction sec) (auto simp: off_rel_def list_all2_same)

lemma off_rel_turn_off: "off_rel sec (turn_off var sec)"
  using off_rel_update [of sec var] by (auto simp: turn_off_def off_rel_refl)

lemma rel_option_off: "rel_option off_rel sec (map_option (turn_off var) sec)"
  by (cases sec) (simp_all add: off_rel_turn_off)

lemma method_frame_refl: "method_frame m m"
  by (simp add: method_frame_def off_rel_refl option.rel_refl)

lemma block_frame_refl: "block_frame b b"
  by (simp add: block_frame_def off_rel_refl method_frame_refl option.rel_refl)

lemma rel_option_trans:
  assumes "\<And>a b c. R a b \<Longrightarrow> R b c \<Longrightarrow> R a c"
  shows "rel_option R x y \<Longrightarrow> rel_option R y z \<Longrightarrow> rel_option R x z"
  using assms by (cases x; cases y; cases z) auto

lemma method_frame_trans: "method_frame a b \<Longrightarrow> method_frame b c \<Longrightarrow> method_frame a c"
  unfolding method_frame_def
  using rel_option_trans [of off_rel, OF off_rel_trans] by auto

lemma block_frame_trans: "block_frame a b \<Longrightarrow> block_frame b c \<Longrightarrow> block_frame a c"
  unfolding block_frame_def
  using rel_option_trans [of off_rel, OF off_rel_trans]
    rel_option_trans [of method_frame, OF method_frame_trans]
  by auto

lemma block_frame_turn_off: "block_frame b (turn_off_block var b)"
proof -
  have "rel_option method_frame (b_method b)
     (map_option (\<lambda>m. m\<lparr>m_outputs := map_option (turn_off var) (m_outputs m)\<rparr>) (b_method b))"
    by (cases "b_method b") (simp_all add: method_frame_def rel_option_off)
  then show ?thesis
    by (simp add: block_frame_def turn_off_block_def rel_option_off)
qed

lemma nodes_frame_refl: "nodes_frame ns ns"
  by (auto simp: nodes_frame_def list_all2_same block_frame_refl)

lemma nodes_frame_trans:
  assumes "nodes_frame a b" and "nodes_frame b c"
  shows "nodes_frame a c"
  using assms unfolding nodes_frame_def
  by (rule list_all2_transI) (auto intro: block_frame_trans)

lemma nodes_frame_map_entry: "nodes_frame ns (AList.map_entry i (turn_off_block var) ns)"
  by (induction ns)
     (auto simp: nodes_frame_def list_all2_same block_frame_refl block_frame_turn_off)

lemma prune_loop_frame: "nodes_frame ns (fst (prune_loop red ns sr))"
proof (induction red ns sr rule: prune_loop.induct)
  case (1 ns sr)
  then show ?case by (simp add: nodes_frame_refl)
next
  case (2 i var rest ns sr)
  show ?case
  proof (cases "map_of sr i")
    case None
    then show ?thesis by (simp add: nodes_frame_refl)
  next
    case (Some e)
    show ?thesis
    proof (cases "var \<notin> set (send e) \<or> i \<notin> fst ` set ns")
      case True
      with Some show ?thesis by (auto simp: nodes_frame_refl)
    next
      case False
      with Some "2.IH" [OF Some]
      have "nodes_frame (AList.map_entry i (turn_off_block var) ns)
              (fst (prune_loop ((i, var) # rest) ns sr))"
        by simp
      with nodes_frame_map_entry show ?thesis
        by (rule nodes_frame_trans)
    qed
  qed
qed

theorem serialize_frame:
  assumes "serialize d = Some (d', r)"
  shows "rel_option nodes_frame (nodes d) (nodes d')"
proof (cases "nodes d")
  case None
  with assms show ?thesis
    by (simp add: serialize_def)
next
  case (Some ns)
  show ?thesis
  proof (cases "scan_nodes ns []")
    case (Inl err)
    with assms Some show ?thesis
      by (auto simp: serialize_def nodes_frame_refl)
  next
    case (Inr sr)
    obtain ns' res where pl: "prune_loop (redundant_of sr) ns sr = (ns', res)"
      by (cases "prune_loop (redundant_of sr) ns sr") auto
    from prune_loop_frame [of ns "redundant_of sr" sr] pl have "nodes_frame ns ns'"
      by simp
    moreover from assms Some Inr pl have "nodes d' = Some ns'"
      by (cases res) (auto simp: serialize_def)
    ultimately show ?thesis
      using Some by simp
  qed
qed

theorem serialize_frame_witness:
  "map_option fst (serialize doc0) = Some doc1
   \<and> rel_option nodes_frame (nodes doc0) (nodes doc1)"
proof -
  have run: "serialize doc0 = Some (doc1,
     Inr ([(''B'', \<lparr>send = [''y''], recv = []\<rparr>), (''A'', \<lparr>send = [], recv = [(''B'', ''y'')]\<rparr>)],
          [(''B'', ''y'')], [(''B'', ''A'')], [(''B'', [''A'']), (''A'', [])],
          [(''B'', []), (''A'', [''B''])], [[''B''], [''A'']]))"
    by code_simp
  from serialize_frame [OF run] run show ?thesis
    by simp
qed

subsection \<open>Pruning twice, when no pruned name holds a reference\<close>

text \<open>
  What a successful scan gives, in closed form: the sends and the receives of a block,
  object by object, in the order of the loops.
\<close>

definition sends_in :: "jobject option \<Rightarrow> string list" where
  "sends_in sec = (case sec of None \<Rightarrow> [] | Some s \<Rightarrow> map fst (filter (\<lambda>(k, v). is_send v) s))"

definition recvs_in :: "jobject option \<Rightarrow> (string \<times> string) list" where
  "recvs_in sec = (case sec of None \<Rightarrow> []
     | Some s \<Rightarrow> concat (map (\<lambda>(k, v). case reference_of v of Inr (Some r) \<Rightarrow> [r] | _ \<Rightarrow> []) s))"

definition block_sends :: "block \<Rightarrow> string list" where
  "block_sends b = sends_in (b_outputs b) @ sends_in (b_wrapper_io b)
     @ (case b_method b of None \<Rightarrow> [] | Some m \<Rightarrow> sends_in (m_outputs m))"

definition block_recvs :: "block \<Rightarrow> (string \<times> string) list" where
  "block_recvs b = recvs_in (b_inputs b) @ recvs_in (b_wrapper_io b)
     @ (case b_method b of None \<Rightarrow> [] | Some m \<Rightarrow> recvs_in (m_inputs m))"

text \<open>
  The documents in question: the keys of every object that the pruning writes to are
  distinct, as the keys of a dictionary are, and \<open>no_ref_at b k\<close> says that the
  \<^verbatim>\<open>wrapper_io\<close> of the block \<open>b\<close> holds no reference under the key \<open>k\<close>.
\<close>

definition keys_distinct :: "jobject option \<Rightarrow> bool" where
  "keys_distinct sec = (case sec of None \<Rightarrow> True | Some s \<Rightarrow> distinct (map fst s))"

definition block_wf :: "block \<Rightarrow> bool" where
  "block_wf b \<longleftrightarrow> keys_distinct (b_outputs b) \<and> keys_distinct (b_wrapper_io b)
     \<and> (case b_method b of None \<Rightarrow> True | Some m \<Rightarrow> keys_distinct (m_outputs m))"

definition no_ref_at :: "block \<Rightarrow> string \<Rightarrow> bool" where
  "no_ref_at b k \<longleftrightarrow>
     (\<forall>s v r. b_wrapper_io b = Some s \<longrightarrow> (k, v) \<in> set s \<longrightarrow> reference_of v \<noteq> Inr (Some r))"

definition entry_of :: "block \<Rightarrow> entry" where
  "entry_of b = \<lparr>send = block_sends b, recv = block_recvs b\<rparr>"

definition send_of :: "srs \<Rightarrow> string \<Rightarrow> string list" where
  "send_of sr i = (case map_of sr i of None \<Rightarrow> [] | Some e \<Rightarrow> send e)"

definition vars_for :: "(string \<times> string) list \<Rightarrow> string \<Rightarrow> string list" where
  "vars_for red i = map snd (filter (\<lambda>(j, v). j = i) red)"

lemma is_send_no_reference: "is_send v \<Longrightarrow> reference_of v = Inr None"
  by (simp add: is_send_def)

lemma scan_inputs_Inr:
  "scan_inputs sec e = Inr e' \<Longrightarrow> e' = e\<lparr>recv := recv e @ recvs_in (Some sec)\<rparr>"
proof (induction sec e rule: scan_inputs.induct)
  case (1 e)
  then show ?case by (simp add: recvs_in_def)
next
  case (2 var val rest e)
  then show ?case
    by (auto simp: recvs_in_def split: sum.splits option.splits)
qed

lemma scan_outputs_eq:
  "scan_outputs sec e = Inr (e\<lparr>send := send e @ sends_in (Some sec)\<rparr>)"
  by (induction sec e rule: scan_outputs.induct) (auto simp: sends_in_def)

lemma scan_wrapper_io_Inr:
  "scan_wrapper_io sec e = Inr e'
   \<Longrightarrow> e' = e\<lparr>recv := recv e @ recvs_in (Some sec), send := send e @ sends_in (Some sec)\<rparr>"
proof (induction sec e rule: scan_wrapper_io.induct)
  case (1 e)
  then show ?case by (simp add: recvs_in_def sends_in_def)
next
  case (2 var val rest e)
  then show ?case
    by (auto simp: recvs_in_def sends_in_def is_send_no_reference split: sum.splits option.splits if_splits)
qed

lemma scan_block_Inr:
  assumes "scan_block b = Inr e"
  shows "e = \<lparr>send = block_sends b, recv = block_recvs b\<rparr>"
proof -
  from assms obtain e1 e2 e3
    where 1: "if_in (b_inputs b) scan_inputs \<lparr>send = [], recv = []\<rparr> = Inr e1"
      and 2: "if_in (b_outputs b) scan_outputs e1 = Inr e2"
      and 3: "if_in (b_wrapper_io b) scan_wrapper_io e2 = Inr e3"
      and 4: "if_in (b_method b) scan_method e3 = Inr e"
    unfolding scan_block_def and_then_def by (auto split: sum.splits)
  from 1 have e1: "e1 = \<lparr>send = [], recv = recvs_in (b_inputs b)\<rparr>"
    by (cases "b_inputs b") (auto simp: if_in_def recvs_in_def dest: scan_inputs_Inr)
  from 2 have e2: "e2 = e1\<lparr>send := send e1 @ sends_in (b_outputs b)\<rparr>"
    by (cases "b_outputs b") (auto simp: if_in_def sends_in_def scan_outputs_eq)
  from 3 have e3: "e3 = e2\<lparr>recv := recv e2 @ recvs_in (b_wrapper_io b),
                             send := send e2 @ sends_in (b_wrapper_io b)\<rparr>"
    by (cases "b_wrapper_io b") (auto simp: if_in_def sends_in_def recvs_in_def dest: scan_wrapper_io_Inr)
  show ?thesis
  proof (cases "b_method b")
    case None
    with 4 e1 e2 e3 show ?thesis
      by (simp add: if_in_def block_sends_def block_recvs_def)
  next
    case (Some m)
    with 4 obtain e4 where 5: "if_in (m_inputs m) scan_inputs e3 = Inr e4"
      and 6: "if_in (m_outputs m) scan_outputs e4 = Inr e"
      by (auto simp: if_in_def scan_method_def and_then_def split: sum.splits)
    from 5 have e4: "e4 = e3\<lparr>recv := recv e3 @ recvs_in (m_inputs m)\<rparr>"
      by (cases "m_inputs m") (auto simp: if_in_def recvs_in_def dest: scan_inputs_Inr)
    from 6 have "e = e4\<lparr>send := send e4 @ sends_in (m_outputs m)\<rparr>"
      by (cases "m_outputs m") (auto simp: if_in_def sends_in_def scan_outputs_eq)
    with Some e1 e2 e3 e4 show ?thesis
      by (simp add: block_sends_def block_recvs_def)
  qed
qed

lemma scan_inputs_ok: "JStr [] \<notin> snd ` set sec \<Longrightarrow> \<exists>e'. scan_inputs sec e = Inr e'"
proof (induction sec e rule: scan_inputs.induct)
  case (1 e)
  then show ?case by simp
next
  case (2 var val rest e)
  then have "val \<noteq> JStr []" and rest: "JStr [] \<notin> snd ` set rest"
    by auto
  from reference_of_ok [OF this(1)] obtain r where "reference_of val = Inr r" ..
  with "2.IH" rest show ?case
    by (cases r) auto
qed

lemma scan_wrapper_io_ok: "JStr [] \<notin> snd ` set sec \<Longrightarrow> \<exists>e'. scan_wrapper_io sec e = Inr e'"
proof (induction sec e rule: scan_wrapper_io.induct)
  case (1 e)
  then show ?case by simp
next
  case (2 var val rest e)
  then have "val \<noteq> JStr []" and rest: "JStr [] \<notin> snd ` set rest"
    by auto
  from reference_of_ok [OF this(1)] obtain r where "reference_of val = Inr r" ..
  with "2.IH" rest show ?case
    by (cases r) auto
qed

lemma scan_block_ok:
  assumes "JStr [] \<notin> reference_values b"
  shows "scan_block b = Inr \<lparr>send = block_sends b, recv = block_recvs b\<rparr>"
proof -
  have in_ok: "\<And>sec e. JStr [] \<notin> values_of sec \<Longrightarrow> \<exists>e'. if_in sec scan_inputs e = Inr e'"
    subgoal for sec e
      by (cases sec) (auto simp: if_in_def values_of_def intro: scan_inputs_ok)
    done
  have out_ok: "\<And>sec e. \<exists>e'. if_in sec scan_outputs e = Inr e'"
    subgoal for sec e
      by (cases sec) (auto simp: if_in_def scan_outputs_eq)
    done
  have w_ok: "\<And>sec e. JStr [] \<notin> values_of sec \<Longrightarrow> \<exists>e'. if_in sec scan_wrapper_io e = Inr e'"
    subgoal for sec e
      by (cases sec) (auto simp: if_in_def values_of_def intro: scan_wrapper_io_ok)
    done
  from assms have a: "JStr [] \<notin> values_of (b_inputs b)" "JStr [] \<notin> values_of (b_wrapper_io b)"
    by (simp_all add: reference_values_def)
  from in_ok [OF a(1)] obtain e1
    where 1: "if_in (b_inputs b) scan_inputs \<lparr>send = [], recv = []\<rparr> = Inr e1" ..
  from out_ok obtain e2 where 2: "if_in (b_outputs b) scan_outputs e1 = Inr e2" ..
  from w_ok [OF a(2)] obtain e3 where 3: "if_in (b_wrapper_io b) scan_wrapper_io e2 = Inr e3" ..
  have "\<exists>e. if_in (b_method b) scan_method e3 = Inr e"
  proof (cases "b_method b")
    case None
    then show ?thesis by (simp add: if_in_def)
  next
    case (Some m)
    with assms have "JStr [] \<notin> values_of (m_inputs m)"
      by (simp add: reference_values_def)
    from in_ok [OF this] obtain e4 where "if_in (m_inputs m) scan_inputs e3 = Inr e4" ..
    moreover from out_ok obtain e5 where "if_in (m_outputs m) scan_outputs e4 = Inr e5" ..
    ultimately show ?thesis
      using Some by (simp add: if_in_def scan_method_def and_then_def)
  qed
  then obtain e where 4: "if_in (b_method b) scan_method e3 = Inr e" ..
  from 1 2 3 4 have "scan_block b = Inr e"
    by (simp add: scan_block_def and_then_def)
  with scan_block_Inr [OF this] show ?thesis
    by simp
qed

lemma scan_block_iff:
  "scan_block b = Inr e \<longleftrightarrow>
     JStr [] \<notin> reference_values b \<and> e = \<lparr>send = block_sends b, recv = block_recvs b\<rparr>"
  using scan_block_ok [of b] scan_block_empty [of b] by (cases "JStr [] \<in> reference_values b") auto

lemma map_fst_turn_off: "map fst (turn_off var s) = map fst s"
  by (auto simp: turn_off_def update_keys)

lemma sends_update:
  "distinct (map fst s) \<Longrightarrow> var \<in> fst ` set s \<Longrightarrow>
   map fst (filter (\<lambda>(k, v). is_send v) (AList.update var (JBool False) s))
     = filter (\<lambda>k. k \<noteq> var) (map fst (filter (\<lambda>(k, v). is_send v) s))"
proof (induction s)
  case Nil
  then show ?case by simp
next
  case (Cons p s)
  obtain k v where p: "p = (k, v)" by (cases p) auto
  show ?case
  proof (cases "k = var")
    case True
    with Cons.prems have "var \<notin> fst ` set s" unfolding p by auto
    then have "filter (\<lambda>k. k \<noteq> var) (map fst (filter (\<lambda>(k, v). is_send v) s))
                 = map fst (filter (\<lambda>(k, v). is_send v) s)"
      by (auto simp: filter_id_conv image_iff)
    with True show ?thesis
      unfolding p by (simp add: is_send_def)
  next
    case False
    with Cons show ?thesis
      unfolding p by auto
  qed
qed

lemma sends_turn_off:
  assumes "distinct (map fst s)"
  shows "sends_in (Some (turn_off var s)) = filter (\<lambda>k. k \<noteq> var) (sends_in (Some s))"
proof (cases "var \<in> fst ` set s")
  case True
  with sends_update [OF assms True] show ?thesis
    by (simp add: sends_in_def turn_off_def)
next
  case False
  then have "filter (\<lambda>k. k \<noteq> var) (map fst (filter (\<lambda>(k, v). is_send v) s))
                 = map fst (filter (\<lambda>(k, v). is_send v) s)"
    by (auto simp: filter_id_conv image_iff)
  with False show ?thesis
    by (simp add: sends_in_def turn_off_def)
qed

lemma recvs_update:
  assumes "\<forall>v r. (var, v) \<in> set s \<longrightarrow> reference_of v \<noteq> Inr (Some r)"
  shows "recvs_in (Some (AList.update var (JBool False) s)) = recvs_in (Some s) \<or> var \<notin> fst ` set s"
  using assms
proof (induction s)
  case Nil
  then show ?case by simp
next
  case (Cons p s)
  obtain k v where p: "p = (k, v)" by (cases p) auto
  show ?case
  proof (cases "k = var")
    case True
    with Cons.prems have "\<forall>r. reference_of v \<noteq> Inr (Some r)"
      unfolding p by auto
    then have "(case reference_of v of Inr (Some r) \<Rightarrow> [r] | _ \<Rightarrow> []) = []"
      by (auto split: sum.splits option.splits)
    with True show ?thesis
      unfolding p by (simp add: recvs_in_def)
  next
    case False
    with Cons show ?thesis
      unfolding p by (auto simp: recvs_in_def)
  qed
qed

lemma recvs_turn_off:
  assumes "\<forall>v r. (var, v) \<in> set s \<longrightarrow> reference_of v \<noteq> Inr (Some r)"
  shows "recvs_in (Some (turn_off var s)) = recvs_in (Some s)"
  using recvs_update [OF assms] by (auto simp: turn_off_def)

lemma set_update_subset:
  "set (AList.update var x s) \<subseteq> insert (var, x) (set s)"
  by (induction s) auto

lemma set_turn_off: "set (turn_off var s) \<subseteq> insert (var, JBool False) (set s)"
  using set_update_subset [of var "JBool False" s] by (auto simp: turn_off_def)

lemma sends_in_turn_off:
  "keys_distinct sec \<Longrightarrow>
   sends_in (map_option (turn_off var) sec) = filter (\<lambda>k. k \<noteq> var) (sends_in sec)"
  by (cases sec) (simp_all add: keys_distinct_def sends_turn_off, simp add: sends_in_def)

lemma keys_distinct_turn_off: "keys_distinct (map_option (turn_off var) sec) = keys_distinct sec"
  by (cases sec) (simp_all add: keys_distinct_def map_fst_turn_off)

lemma values_turn_off: "values_of (map_option (turn_off var) sec) \<subseteq> insert (JBool False) (values_of sec)"
  using set_turn_off by (cases sec) (fastforce simp: values_of_def)+

lemma block_sends_turn_off:
  assumes "block_wf b"
  shows "block_sends (turn_off_block var b) = filter (\<lambda>k. k \<noteq> var) (block_sends b)"
proof -
  from assms have "keys_distinct (b_outputs b)" "keys_distinct (b_wrapper_io b)"
    and m: "\<And>m. b_method b = Some m \<Longrightarrow> keys_distinct (m_outputs m)"
    by (auto simp: block_wf_def)
  then show ?thesis
    by (cases "b_method b") (simp_all add: block_sends_def turn_off_block_def sends_in_turn_off)
qed

lemma block_recvs_turn_off:
  assumes "no_ref_at b var"
  shows "block_recvs (turn_off_block var b) = block_recvs b"
proof -
  have "recvs_in (map_option (turn_off var) (b_wrapper_io b)) = recvs_in (b_wrapper_io b)"
  proof (cases "b_wrapper_io b")
    case None
    then show ?thesis by simp
  next
    case (Some s)
    with assms have "\<forall>v r. (var, v) \<in> set s \<longrightarrow> reference_of v \<noteq> Inr (Some r)"
      by (simp add: no_ref_at_def)
    from recvs_turn_off [OF this] Some show ?thesis by simp
  qed
  then show ?thesis
    by (cases "b_method b") (simp_all add: block_recvs_def turn_off_block_def)
qed

lemma block_wf_turn_off: "block_wf (turn_off_block var b) = block_wf b"
  by (cases "b_method b") (simp_all add: block_wf_def turn_off_block_def keys_distinct_turn_off)

lemma validate_keys_turn_off: "validate_keys (turn_off_block var b) = validate_keys b"
  by (simp add: validate_keys_def turn_off_block_def)

lemma reference_values_turn_off:
  "reference_values (turn_off_block var b) \<subseteq> insert (JBool False) (reference_values b)"
  using values_turn_off [of var "b_wrapper_io b"]
  by (cases "b_method b") (auto simp: reference_values_def turn_off_block_def)

lemma no_ref_at_turn_off:
  assumes "no_ref_at b k"
  shows "no_ref_at (turn_off_block var b) k"
  unfolding no_ref_at_def
proof (intro allI impI)
  fix s v r
  assume s: "b_wrapper_io (turn_off_block var b) = Some s" and kv: "(k, v) \<in> set s"
  then obtain s0 where s0: "b_wrapper_io b = Some s0" and "s = turn_off var s0"
    by (auto simp: turn_off_block_def)
  with kv set_turn_off [of var s0] have "(k, v) \<in> set s0 \<or> v = JBool False"
    by auto
  with assms s0 show "reference_of v \<noteq> Inr (Some r)"
    unfolding no_ref_at_def by (cases "v = JBool False") (simp, blast)
qed

lemma fold_turn_off:
  assumes "block_wf b" and "\<forall>k \<in> set vs. no_ref_at b k" and "JStr [] \<notin> reference_values b"
  shows "block_sends (fold turn_off_block vs b) = filter (\<lambda>k. k \<notin> set vs) (block_sends b)"
    and "block_recvs (fold turn_off_block vs b) = block_recvs b"
    and "validate_keys (fold turn_off_block vs b) = validate_keys b"
    and "JStr [] \<notin> reference_values (fold turn_off_block vs b)"
  using assms
proof (induction vs arbitrary: b)
  case Nil
  {
    case 1 then show ?case by simp
  next
    case 2 then show ?case by simp
  next
    case 3 then show ?case by simp
  next
    case 4 then show ?case by simp
  }
next
  case (Cons v vs)
  {
    case 1
    then have wf: "block_wf (turn_off_block v b)"
      and nr: "\<forall>k \<in> set vs. no_ref_at (turn_off_block v b) k"
      and ne: "JStr [] \<notin> reference_values (turn_off_block v b)"
      using reference_values_turn_off [of v b]
      by (auto simp: block_wf_turn_off intro: no_ref_at_turn_off)
    from Cons.IH(1) [OF wf nr ne] 1(1) show ?case
      by (simp add: block_sends_turn_off)
  next
    case 2
    then have wf: "block_wf (turn_off_block v b)"
      and nr: "\<forall>k \<in> set vs. no_ref_at (turn_off_block v b) k"
      and ne: "JStr [] \<notin> reference_values (turn_off_block v b)"
      using reference_values_turn_off [of v b]
      by (auto simp: block_wf_turn_off intro: no_ref_at_turn_off)
    from Cons.IH(2) [OF wf nr ne] 2(2) show ?case
      by (simp add: block_recvs_turn_off)
  next
    case 3
    then have wf: "block_wf (turn_off_block v b)"
      and nr: "\<forall>k \<in> set vs. no_ref_at (turn_off_block v b) k"
      and ne: "JStr [] \<notin> reference_values (turn_off_block v b)"
      using reference_values_turn_off [of v b]
      by (auto simp: block_wf_turn_off intro: no_ref_at_turn_off)
    from Cons.IH(3) [OF wf nr ne] show ?case
      by (simp add: validate_keys_turn_off)
  next
    case 4
    then have wf: "block_wf (turn_off_block v b)"
      and nr: "\<forall>k \<in> set vs. no_ref_at (turn_off_block v b) k"
      and ne: "JStr [] \<notin> reference_values (turn_off_block v b)"
      using reference_values_turn_off [of v b]
      by (auto simp: block_wf_turn_off intro: no_ref_at_turn_off)
    from Cons.IH(4) [OF wf nr ne] show ?case
      by simp
  }
qed

lemma update_fresh: "k \<notin> fst ` set al \<Longrightarrow> AList.update k v al = al @ [(k, v)]"
  by (induction al) auto

lemma scan_nodes_iff:
  assumes "distinct (map fst ns)" and "fst ` set ns \<inter> fst ` set sr0 = {}"
  shows "scan_nodes ns sr0 = Inr sr \<longleftrightarrow>
     (\<forall>(i, b) \<in> set ns. validate_keys b = Inr () \<and> JStr [] \<notin> reference_values b)
     \<and> sr = sr0 @ map (\<lambda>(i, b). (i, entry_of b)) ns"
  using assms
proof (induction ns arbitrary: sr0)
  case Nil
  then show ?case by auto
next
  case (Cons p ns)
  obtain i b where p: "p = (i, b)" by (cases p) auto
  from Cons.prems have fresh: "i \<notin> fst ` set sr0" and d: "distinct (map fst ns)"
    and i: "i \<notin> fst ` set ns"
    unfolding p by auto
  show ?case
  proof (cases "validate_keys b = Inr () \<and> JStr [] \<notin> reference_values b")
    case True
    then have sb: "scan_block b = Inr (entry_of b)"
      by (simp add: scan_block_ok entry_of_def)
    have disj: "fst ` set ns \<inter> fst ` set (sr0 @ [(i, entry_of b)]) = {}"
      using Cons.prems(2) i unfolding p by auto
    from Cons.IH [OF d disj] True sb show ?thesis
      unfolding p by (simp add: update_fresh [OF fresh])
  next
    case False
    then have "\<exists>err. scan_nodes (p # ns) sr0 = Inl err"
      unfolding p using scan_block_empty [of b]
      by (cases "validate_keys b") auto
    with False show ?thesis
      unfolding p by auto
  qed
qed

lemma count_list_remove1:
  "count_list (remove1 x xs) y = (if x = y \<and> x \<in> set xs then count_list xs y - 1 else count_list xs y)"
  by (induction xs) auto

lemma filter_remove1: "\<not> P x \<Longrightarrow> filter P (remove1 x xs) = filter P xs"
  by (induction xs) auto

lemma remove1_single: "count_list xs x = 1 \<Longrightarrow> remove1 x xs = filter (\<lambda>y. y \<noteq> x) xs"
proof (induction xs)
  case Nil
  then show ?case by simp
next
  case (Cons a xs)
  show ?case
  proof (cases "a = x")
    case True
    with Cons.prems have "count_list xs x = 0" by simp
    then have "x \<notin> set xs" by (simp add: count_list_0_iff)
    then have "filter (\<lambda>y. y \<noteq> x) xs = xs"
      by (auto simp: filter_id_conv)
    with True show ?thesis by simp
  next
    case False
    with Cons show ?thesis by simp
  qed
qed

lemma fold_remove1:
  assumes "\<forall>v \<in> set vs. count_list vs v = count_list xs v"
  shows "fold remove1 vs xs = filter (\<lambda>x. x \<notin> set vs) xs"
  using assms
proof (induction vs arbitrary: xs)
  case Nil
  then show ?case by simp
next
  case (Cons v vs)
  from Cons.prems have cv: "count_list xs v = Suc (count_list vs v)"
    by simp
  then have vin: "v \<in> set xs"
    by (metis count_list_0_iff nat.distinct(1))
  have "\<forall>w \<in> set vs. count_list vs w = count_list (remove1 v xs) w"
  proof
    fix w assume w: "w \<in> set vs"
    with Cons.prems have "count_list (v # vs) w = count_list xs w" by simp
    with cv vin show "count_list vs w = count_list (remove1 v xs) w"
      by (cases "w = v") (simp_all add: count_list_remove1)
  qed
  from Cons.IH [OF this] have IH: "fold remove1 vs (remove1 v xs) = filter (\<lambda>x. x \<notin> set vs) (remove1 v xs)" .
  show ?case
  proof (cases "v \<in> set vs")
    case True
    then have "set (v # vs) = set vs" by auto
    with IH True show ?thesis
      by (simp add: filter_remove1)
  next
    case False
    then have "count_list vs v = 0" by (simp add: count_list_0_iff)
    with cv have "count_list xs v = 1" by simp
    from remove1_single [OF this] IH show ?thesis
      by (simp add: conj_commute)
  qed
qed

lemma map_entry_map:
  "distinct (map fst al) \<Longrightarrow>
   AList.map_entry k f al = map (\<lambda>(j, x). (j, if j = k then f x else x)) al"
proof (induction al)
  case Nil
  then show ?case by simp
next
  case (Cons p al)
  obtain j x where p: "p = (j, x)" by (cases p) auto
  show ?case
  proof (cases "j = k")
    case True
    with Cons.prems have "k \<notin> fst ` set al" unfolding p by auto
    then have "map (\<lambda>(j, x). (j, if j = k then f x else x)) al = al"
      by (induction al) auto
    with True show ?thesis unfolding p by simp
  next
    case False
    with Cons show ?thesis unfolding p by simp
  qed
qed

lemma update_map:
  "distinct (map fst al) \<Longrightarrow> k \<in> fst ` set al \<Longrightarrow>
   AList.update k y al = map (\<lambda>(j, x). (j, if j = k then y else x)) al"
proof (induction al)
  case Nil
  then show ?case by simp
next
  case (Cons p al)
  obtain j x where p: "p = (j, x)" by (cases p) auto
  show ?case
  proof (cases "j = k")
    case True
    with Cons.prems have "k \<notin> fst ` set al" unfolding p by auto
    then have "map (\<lambda>(j, x). (j, if j = k then y else x)) al = al"
      by (induction al) auto
    with True show ?thesis unfolding p by simp
  next
    case False
    with Cons show ?thesis unfolding p by auto
  qed
qed

lemma send_of_key: "send_of sr i \<noteq> [] \<Longrightarrow> \<exists>e. map_of sr i = Some e \<and> send_of sr i = send e"
  by (cases "map_of sr i") (simp_all add: send_of_def)

lemma prune_loop_eq:
  assumes "distinct (map fst ns)" and "map fst sr = map fst ns"
    and "\<forall>i v. count_list red (i, v) \<le> count_list (send_of sr i) v"
  shows "prune_loop red ns sr =
     (map (\<lambda>(i, b). (i, fold turn_off_block (vars_for red i) b)) ns,
      Inr (map (\<lambda>(i, e). (i, e\<lparr>send := fold remove1 (vars_for red i) (send e)\<rparr>)) sr))"
  using assms
proof (induction red arbitrary: ns sr)
  case Nil
  then show ?case by (simp add: vars_for_def)
next
  case (Cons p red)
  obtain i var where p: "p = (i, var)" by (cases p) auto
  from Cons.prems(3) have "1 \<le> count_list (send_of sr i) var"
    unfolding p by (metis count_list.simps(2) le_add2 order_trans plus_1_eq_Suc)
  then have vin: "var \<in> set (send_of sr i)"
    by (metis count_list_0_iff not_one_le_zero)
  then have "send_of sr i \<noteq> []" by auto
  from send_of_key [OF this] obtain e where e: "map_of sr i = Some e" and se: "send_of sr i = send e"
    by blast
  from e have isr: "i \<in> fst ` set sr"
    by (metis domI dom_map_of_conv_image_fst)
  with Cons.prems(2) have ins: "i \<in> fst ` set ns"
    by (metis set_map)
  from Cons.prems(1,2) have dsr: "distinct (map fst sr)" by simp
  let ?e' = "e\<lparr>send := remove1 var (send e)\<rparr>"
  let ?ns1 = "AList.map_entry i (turn_off_block var) ns"
  let ?sr1 = "AList.update i ?e' sr"
  have ns1: "?ns1 = map (\<lambda>(j, x). (j, if j = i then turn_off_block var x else x)) ns"
    using Cons.prems(1) by (rule map_entry_map)
  have sr1: "?sr1 = map (\<lambda>(j, x). (j, if j = i then ?e' else x)) sr"
    using dsr isr by (rule update_map)
  have k1: "map fst ?ns1 = map fst ns" unfolding ns1 by (induction ns) auto
  have k2: "map fst ?sr1 = map fst sr" unfolding sr1 by (induction sr) auto
  have so: "\<And>j. send_of ?sr1 j = (if j = i then remove1 var (send e) else send_of sr j)"
    by (simp add: send_of_def update_conv')
  have cnt: "\<forall>j v. count_list red (j, v) \<le> count_list (send_of ?sr1 j) v"
  proof (intro allI)
    fix j v
    from Cons.prems(3) have "count_list (p # red) (j, v) \<le> count_list (send_of sr j) v"
      by blast
    then show "count_list red (j, v) \<le> count_list (send_of ?sr1 j) v"
      unfolding so p using vin se by (auto simp: count_list_remove1 split: if_splits)
  qed
  have d1: "distinct (map fst ?ns1)" using Cons.prems(1) k1 by simp
  have kk: "map fst ?sr1 = map fst ?ns1" using k1 k2 Cons.prems(2) by simp
  note IH = Cons.IH [OF d1 kk cnt]
  have vf: "\<And>j. vars_for (p # red) j = (if j = i then var # vars_for red j else vars_for red j)"
    unfolding p by (simp add: vars_for_def)
  have a: "map (\<lambda>(j, b). (j, fold turn_off_block (vars_for red j) b)) ?ns1
         = map (\<lambda>(j, b). (j, fold turn_off_block (vars_for (p # red) j) b)) ns"
    unfolding ns1 vf by (induction ns) auto
  have ie: "\<And>x. (i, x) \<in> set sr \<Longrightarrow> x = e"
    using e dsr by (metis map_of_is_SomeI option.inject)
  have b: "map (\<lambda>(j, x). (j, x\<lparr>send := fold remove1 (vars_for red j) (send x)\<rparr>)) ?sr1
         = map (\<lambda>(j, x). (j, x\<lparr>send := fold remove1 (vars_for (p # red) j) (send x)\<rparr>)) sr"
    unfolding sr1 vf map_map
  proof (rule map_cong [OF refl])
    fix q assume q: "q \<in> set sr"
    obtain j x where jx: "q = (j, x)" by (cases q) auto
    show "((\<lambda>(j, x). (j, x\<lparr>send := fold remove1 (vars_for red j) (send x)\<rparr>)) \<circ>
           (\<lambda>(j, x). (j, if j = i then ?e' else x))) q
        = (\<lambda>(j, x). (j, x\<lparr>send := fold remove1
             (if j = i then var # vars_for red j else vars_for red j) (send x)\<rparr>)) q"
      using ie q unfolding jx by auto
  qed
  from vin se e ins IH show ?case
    unfolding p [symmetric] a [symmetric] b [symmetric]
    unfolding p by simp
qed

lemma count_list_filter: "count_list (filter P xs) x = (if P x then count_list xs x else 0)"
  by (induction xs) auto

lemma count_list_Pair: "count_list (map (Pair i) xs) (j, v) = (if j = i then count_list xs v else 0)"
  by (induction xs) auto

lemma send_of_notin: "i \<notin> fst ` set sr \<Longrightarrow> send_of sr i = []"
proof -
  assume "i \<notin> fst ` set sr"
  then have "map_of sr i = None"
    by (simp add: map_of_eq_None_iff)
  then show ?thesis
    by (simp add: send_of_def)
qed

lemma count_all_sent:
  "distinct (map fst sr) \<Longrightarrow> count_list (all_sent_of sr) (i, v) = count_list (send_of sr i) v"
proof (induction sr)
  case Nil
  then show ?case by (simp add: all_sent_of_def send_of_def)
next
  case (Cons p sr)
  obtain j e where p: "p = (j, e)" by (cases p) auto
  from Cons.prems have j: "j \<notin> fst ` set sr" and d: "distinct (map fst sr)"
    unfolding p by auto
  from Cons.IH [OF d] have IH: "count_list (all_sent_of sr) (i, v) = count_list (send_of sr i) v" .
  have "all_sent_of (p # sr) = map (Pair j) (send e) @ all_sent_of sr"
    unfolding p by (simp add: all_sent_of_def)
  then show ?case
    using IH send_of_notin [OF j]
    by (auto simp: count_list_Pair p send_of_def)
qed

lemma count_redundant:
  "distinct (map fst sr) \<Longrightarrow>
   count_list (redundant_of sr) (i, v) =
     (if (i, v) \<in> set (all_received_of sr) then 0 else count_list (send_of sr i) v)"
  by (simp add: redundant_of_def count_list_filter count_all_sent)

lemma count_vars_for: "count_list (vars_for red i) v = count_list red (i, v)"
  by (induction red) (auto simp: vars_for_def)

lemma set_vars_for: "set (vars_for red i) = {v. (i, v) \<in> set red}"
  by (auto simp: vars_for_def image_iff)

lemma set_all_sent: "set (all_sent_of sr) = {(i, v). \<exists>e. (i, e) \<in> set sr \<and> v \<in> set (send e)}"
  by (auto simp: all_sent_of_def)

lemma set_redundant:
  "set (redundant_of sr) = {x \<in> set (all_sent_of sr). x \<notin> set (all_received_of sr)}"
  by (auto simp: redundant_of_def)

lemma send_of_distinct: "distinct (map fst sr) \<Longrightarrow> (i, e) \<in> set sr \<Longrightarrow> send_of sr i = send e"
  by (simp add: send_of_def)

lemma map_fst_entries: "map fst (map (\<lambda>(i, b). (i, f i b)) ns) = map fst ns"
  by (induction ns) auto

text \<open>
  Pruning is idempotent on the documents where no redundant send shares its name with a
  reference in the \<^verbatim>\<open>wrapper_io\<close> of its node. Let the scan of the nodes succeed, the
  node ids and the keys of the objects be distinct, and let no block hold a reference in
  \<^verbatim>\<open>wrapper_io\<close> under the name of one of its redundant sends. Then the pruning
  loop succeeds; scanning the pruned nodes gives the pruned send/recv structure; no send of
  it is redundant; and the pruning loop, run again, changes neither the nodes nor the
  send/recv structure.
\<close>

theorem prune_idempotent:
  assumes scan: "scan_nodes ns [] = Inr sr"
    and ids: "distinct (map fst ns)" and wf: "\<forall>(i, b) \<in> set ns. block_wf b"
    and nocoll: "\<forall>(i, b) \<in> set ns. \<forall>var. (i, var) \<in> set (redundant_of sr) \<longrightarrow> no_ref_at b var"
  shows "\<exists>ns' sr'. prune_loop (redundant_of sr) ns sr = (ns', Inr sr')
           \<and> scan_nodes ns' [] = Inr sr' \<and> redundant_of sr' = []
           \<and> prune_loop (redundant_of sr') ns' sr' = (ns', Inr sr')"
proof -
  define red where "red = redundant_of sr"
  let ?keep = "\<lambda>i v. (i, v) \<notin> set red"
  let ?ns' = "map (\<lambda>(i, b). (i, fold turn_off_block (vars_for red i) b)) ns"
  let ?sr' = "map (\<lambda>(i, e). (i, e\<lparr>send := fold remove1 (vars_for red i) (send e)\<rparr>)) sr"
  from scan ids have ok: "\<forall>(i, b) \<in> set ns. validate_keys b = Inr () \<and> JStr [] \<notin> reference_values b"
    and sr: "sr = map (\<lambda>(i, b). (i, entry_of b)) ns"
    by (simp_all add: scan_nodes_iff)
  have ksr: "map fst sr = map fst ns"
    unfolding sr by (rule map_fst_entries)
  with ids have dsr: "distinct (map fst sr)" by simp
  have cnt: "\<forall>i v. count_list red (i, v) \<le> count_list (send_of sr i) v"
    by (simp add: red_def count_redundant [OF dsr])
  from prune_loop_eq [OF ids ksr cnt]
  have pl: "prune_loop red ns sr = (?ns', Inr ?sr')" .
  \<comment> \<open>the send lists after the loop\<close>
  have rm: "fold remove1 (vars_for red i) (send e) = filter (?keep i) (send e)"
    if "(i, e) \<in> set sr" for i e
  proof -
    have "\<forall>v \<in> set (vars_for red i). count_list (vars_for red i) v = count_list (send e) v"
    proof
      fix v assume "v \<in> set (vars_for red i)"
      then have "(i, v) \<in> set red" by (simp add: set_vars_for)
      then have "(i, v) \<notin> set (all_received_of sr)" by (simp add: red_def set_redundant)
      then show "count_list (vars_for red i) v = count_list (send e) v"
        by (simp add: red_def count_vars_for count_redundant [OF dsr] send_of_distinct [OF dsr that])
    qed
    from fold_remove1 [OF this] show ?thesis
      by (simp add: set_vars_for)
  qed
  have sr': "?sr' = map (\<lambda>(i, b). (i, \<lparr>send = filter (?keep i) (block_sends b), recv = block_recvs b\<rparr>)) ns"
    unfolding sr map_map
  proof (rule map_cong [OF refl])
    fix q assume q: "q \<in> set ns"
    obtain i b where ib: "q = (i, b)" by (cases q) auto
    from q have "(i, entry_of b) \<in> set sr"
      unfolding sr ib by force
    from rm [OF this] show "((\<lambda>(i, e). (i, e\<lparr>send := fold remove1 (vars_for red i) (send e)\<rparr>)) \<circ>
            (\<lambda>(i, b). (i, entry_of b))) q
        = (\<lambda>(i, b). (i, \<lparr>send = filter (?keep i) (block_sends b), recv = block_recvs b\<rparr>)) q"
      unfolding ib by (simp add: entry_of_def)
  qed
  \<comment> \<open>the blocks after the loop\<close>
  have blk: "validate_keys (fold turn_off_block (vars_for red i) b) = Inr ()
      \<and> JStr [] \<notin> reference_values (fold turn_off_block (vars_for red i) b)
      \<and> entry_of (fold turn_off_block (vars_for red i) b)
          = \<lparr>send = filter (?keep i) (block_sends b), recv = block_recvs b\<rparr>"
    if "(i, b) \<in> set ns" for i b
  proof -
    from that wf have 1: "block_wf b" by auto
    from that nocoll have 2: "\<forall>k \<in> set (vars_for red i). no_ref_at b k"
      by (auto simp: red_def set_vars_for)
    from that ok have 3: "JStr [] \<notin> reference_values b" and 4: "validate_keys b = Inr ()"
      by auto
    from fold_turn_off [OF 1 2 3] 4 show ?thesis
      by (simp add: entry_of_def set_vars_for)
  qed
  have "map fst ?ns' = map fst ns"
    by (rule map_fst_entries)
  with ids have dns': "distinct (map fst ?ns')"
    by (simp only:)
  have ok': "\<forall>(i, b) \<in> set ?ns'. validate_keys b = Inr () \<and> JStr [] \<notin> reference_values b"
    using blk by auto
  have ent: "?sr' = map (\<lambda>(i, b). (i, entry_of b)) ?ns'"
    unfolding sr' map_map
  proof (rule map_cong [OF refl])
    fix q assume q: "q \<in> set ns"
    obtain i b where ib: "q = (i, b)" by (cases q) auto
    from blk [OF q [unfolded ib]]
    show "(\<lambda>(i, b). (i, \<lparr>send = filter (?keep i) (block_sends b), recv = block_recvs b\<rparr>)) q
        = ((\<lambda>(i, b). (i, entry_of b)) \<circ> (\<lambda>(i, b). (i, fold turn_off_block (vars_for red i) b))) q"
      unfolding ib by simp
  qed
  from dns' ok' ent have scan': "scan_nodes ?ns' [] = Inr ?sr'"
    by (simp add: scan_nodes_iff)
  \<comment> \<open>nothing is redundant any more\<close>
  have recv': "all_received_of ?sr' = all_received_of sr"
    unfolding all_received_of_def by (induction sr) auto
  have "x \<in> set (all_received_of ?sr')" if "x \<in> set (all_sent_of ?sr')" for x
  proof -
    from that obtain i v e where x: "x = (i, v)" and e: "(i, e) \<in> set sr"
      and v: "v \<in> set (fold remove1 (vars_for red i) (send e))"
      by (auto simp: set_all_sent)
    from v rm [OF e] have "v \<in> set (send e)" "(i, v) \<notin> set red"
      by auto
    with e have "(i, v) \<in> set (all_sent_of sr)"
      by (auto simp: set_all_sent)
    with \<open>(i, v) \<notin> set red\<close> show ?thesis
      unfolding x recv' by (simp add: red_def set_redundant)
  qed
  then have red': "redundant_of ?sr' = []"
    unfolding redundant_of_def by (simp add: filter_empty_conv)
  have again: "prune_loop (redundant_of ?sr') ?ns' ?sr' = (?ns', Inr ?sr')"
    unfolding red' by simp
  have "prune_loop red ns sr = (?ns', Inr ?sr')
           \<and> scan_nodes ?ns' [] = Inr ?sr' \<and> redundant_of ?sr' = []
           \<and> prune_loop (redundant_of ?sr') ?ns' ?sr' = (?ns', Inr ?sr')"
    using pl scan' red' again by (intro conjI)
  then have "\<exists>ns' sr'. prune_loop red ns sr = (ns', Inr sr')
           \<and> scan_nodes ns' [] = Inr sr' \<and> redundant_of sr' = []
           \<and> prune_loop (redundant_of sr') ns' sr' = (ns', Inr sr')"
    by (intro exI)
  then show ?thesis
    unfolding red_def .
qed

theorem prune_idempotent_witness:
  "scan_nodes
     [(''A'', plain_node None (Some [(''x'', JBool True), (''z'', JBool True)]) None),
      (''B'', plain_node (Some [(''df'', JStr ''@A@x'')]) None None)] []
     = Inr [(''A'', \<lparr>send = [''x'', ''z''], recv = []\<rparr>),
            (''B'', \<lparr>send = [], recv = [(''A'', ''x'')]\<rparr>)]
   \<and> prune_loop [(''A'', ''z'')]
       [(''A'', plain_node None (Some [(''x'', JBool True), (''z'', JBool True)]) None),
        (''B'', plain_node (Some [(''df'', JStr ''@A@x'')]) None None)]
       [(''A'', \<lparr>send = [''x'', ''z''], recv = []\<rparr>),
        (''B'', \<lparr>send = [], recv = [(''A'', ''x'')]\<rparr>)]
     = ([(''A'', plain_node None (Some [(''x'', JBool True), (''z'', JBool False)]) None),
         (''B'', plain_node (Some [(''df'', JStr ''@A@x'')]) None None)],
        Inr [(''A'', \<lparr>send = [''x''], recv = []\<rparr>),
             (''B'', \<lparr>send = [], recv = [(''A'', ''x'')]\<rparr>)])
   \<and> scan_nodes
       [(''A'', plain_node None (Some [(''x'', JBool True), (''z'', JBool False)]) None),
        (''B'', plain_node (Some [(''df'', JStr ''@A@x'')]) None None)] []
     = Inr [(''A'', \<lparr>send = [''x''], recv = []\<rparr>),
            (''B'', \<lparr>send = [], recv = [(''A'', ''x'')]\<rparr>)]
   \<and> redundant_of [(''A'', \<lparr>send = [''x''], recv = []\<rparr>),
                    (''B'', \<lparr>send = [], recv = [(''A'', ''x'')]\<rparr>)] = []"
proof -
  let ?ns = "[(''A'', plain_node None (Some [(''x'', JBool True), (''z'', JBool True)]) None),
      (''B'', plain_node (Some [(''df'', JStr ''@A@x'')]) None None)]"
  let ?sr = "[(''A'', \<lparr>send = [''x'', ''z''], recv = []\<rparr>),
            (''B'', \<lparr>send = [], recv = [(''A'', ''x'')]\<rparr>)]"
  let ?ns1 = "[(''A'', plain_node None (Some [(''x'', JBool True), (''z'', JBool False)]) None),
         (''B'', plain_node (Some [(''df'', JStr ''@A@x'')]) None None)]"
  let ?sr1 = "[(''A'', \<lparr>send = [''x''], recv = []\<rparr>),
             (''B'', \<lparr>send = [], recv = [(''A'', ''x'')]\<rparr>)]"
  have scan: "scan_nodes ?ns [] = Inr ?sr"
    by code_simp
  have red: "redundant_of ?sr = [(''A'', ''z'')]"
    by code_simp
  have run: "prune_loop [(''A'', ''z'')] ?ns ?sr = (?ns1, Inr ?sr1)"
    by code_simp
  have ids: "distinct (map fst ?ns)"
    by simp
  have wf: "\<forall>(i, b) \<in> set ?ns. block_wf b"
    by (simp add: block_wf_def keys_distinct_def plain_node_def)
  have nocoll: "\<forall>(i, b) \<in> set ?ns. \<forall>var. (i, var) \<in> set (redundant_of ?sr) \<longrightarrow> no_ref_at b var"
    unfolding red by (simp add: no_ref_at_def plain_node_def)
  from prune_idempotent [OF scan ids wf nocoll] obtain ns' sr'
    where 1: "prune_loop (redundant_of ?sr) ?ns ?sr = (ns', Inr sr')"
      and 2: "scan_nodes ns' [] = Inr sr'" and 3: "redundant_of sr' = []"
    by (elim exE conjE)
  from 1 have "ns' = ?ns1" "sr' = ?sr1"
    unfolding red run by simp_all
  with 2 3 scan run show ?thesis
    by (intro conjI) simp_all
qed

subsection \<open>Key validation comes before the scan of a node\<close>

text \<open>
  \<^verbatim>\<open>validate_keys\<close> is called at the top of the loop body. When every node before
  some node passes the validation and holds no empty string where a reference is looked for,
  and that node fails the validation, the scan stops with the validation's error.
\<close>

lemma scan_nodes_invalid:
  assumes "\<forall>(i, b) \<in> set pre. validate_keys b = Inr () \<and> JStr [] \<notin> reference_values b"
    and "validate_keys block = Inl err"
  shows "scan_nodes (pre @ (block_id, block) # post) sr = Inl err"
  using assms(1)
proof (induction pre arbitrary: sr)
  case Nil
  with assms(2) show ?case by simp
next
  case (Cons p pre)
  obtain i b where p: "p = (i, b)" by (cases p) auto
  from Cons.prems have ok: "validate_keys b = Inr ()" "JStr [] \<notin> reference_values b"
    and pre: "\<forall>(i, b) \<in> set pre. validate_keys b = Inr () \<and> JStr [] \<notin> reference_values b"
    unfolding p by simp_all
  from scan_block_ok [OF ok(2)] ok(1) Cons.IH [OF pre] show ?case
    unfolding p by simp
qed

text \<open>
  X5. When every node before some node passes the key validation and has no empty string as a
  value of \<^verbatim>\<open>inputs\<close>, \<^verbatim>\<open>wrapper_io\<close> or \<^verbatim>\<open>method.inputs\<close>, and that node fails the key
  validation, \<^verbatim>\<open>serialize\<close> raises the validation's \<^verbatim>\<open>ValueError\<close>, whatever the values
  of that node and of the nodes after it are, and leaves the document unchanged.
\<close>

theorem serialize_validation_first:
  assumes "nodes d = Some (pre @ (block_id, block) # post)"
    and "\<forall>(i, b) \<in> set pre. validate_keys b = Inr () \<and> JStr '''' \<notin> reference_values b"
    and "validate_keys block = Inl err"
  shows "serialize d = Some (d, Inl err)"
  using scan_nodes_invalid [OF assms(2,3), of block_id post "[]"] assms(1)
  by (simp add: serialize_def)

theorem serialize_validation_first_witness:
  "serialize \<lparr>nodes = Some
      [(''A'', plain_node None (Some [(''x'', JBool True)]) None),
       (''B'', \<lparr>b_name = None, b_library = Some (JStr ''lib''), b_module = None,
                b_inputs = Some [(''sep'', JStr '''')], b_outputs = None, b_method = None,
                b_wrapper_io = None, other_keys = []\<rparr>)]\<rparr>
   = Some (\<lparr>nodes = Some
      [(''A'', plain_node None (Some [(''x'', JBool True)]) None),
       (''B'', \<lparr>b_name = None, b_library = Some (JStr ''lib''), b_module = None,
                b_inputs = Some [(''sep'', JStr '''')], b_outputs = None, b_method = None,
                b_wrapper_io = None, other_keys = []\<rparr>)]\<rparr>,
      Inl (ValueError MissingName))"
proof -
  let ?A = "plain_node None (Some [(''x'', JBool True)]) None"
  let ?B = "\<lparr>b_name = None, b_library = Some (JStr ''lib''), b_module = None,
                b_inputs = Some [(''sep'', JStr '''')], b_outputs = None, b_method = None,
                b_wrapper_io = None, other_keys = []\<rparr>"
  let ?d = "\<lparr>nodes = Some [(''A'', ?A), (''B'', ?B)]\<rparr>"
  have 1: "nodes ?d = Some ([(''A'', ?A)] @ (''B'', ?B) # [])"
    by simp
  have 2: "\<forall>(i, b) \<in> set [(''A'', ?A)].
      validate_keys b = Inr () \<and> JStr '''' \<notin> reference_values b"
    by (simp add: validate_keys_def plain_node_def reference_values_def values_of_def)
  have 3: "validate_keys ?B = Inl (ValueError MissingName)"
    by (simp add: validate_keys_def)
  from serialize_validation_first [OF 1 2 3] show ?thesis .
qed

section \<open>The data exchange: class \<^verbatim>\<open>Stack\<close>\<close>

text \<open>
  \<^verbatim>\<open>Stack.__init__\<close> creates the dictionary \<^verbatim>\<open>self.stack\<close> (and
  \<^verbatim>\<open>self.references\<close>); the start time is left out. The bodies of
  \<^verbatim>\<open>push\<close> and \<^verbatim>\<open>pull\<close> are the single statement
  \<^verbatim>\<open>pass\<close>: neither touches the object, neither raises, and both return
  Python's \<^verbatim>\<open>None\<close>, which is \<open>None\<close> here.
\<close>

record ('t, 'v) Stack =
  stack :: "'t \<rightharpoonup> 'v"
  references :: "'t \<rightharpoonup> 'v"

definition Stack_init :: "('t, 'v) Stack" where
  "Stack_init = \<lparr>stack = Map.empty, references = Map.empty\<rparr>"

definition push :: "('t, 'v) Stack \<Rightarrow> 't \<Rightarrow> 'v \<Rightarrow> ('t, 'v) Stack \<times> (py_error + 'v option)" where
  "push s token val = (s, Inr None)"

definition pull :: "('t, 'v) Stack \<Rightarrow> 't \<Rightarrow> ('t, 'v) Stack \<times> (py_error + 'v option)" where
  "pull s token = (s, Inr None)"

text \<open>
  Claim C4 (fails on the code). After \<^verbatim>\<open>push(token, value)\<close> a
  \<^verbatim>\<open>pull(token)\<close> should return the stored value, and a second push to the
  same token should fail. On the code, for the token \<open>(''A'', ''x'')\<close> and the value
  \<open>1\<close>: the push stores nothing, the pull returns \<^verbatim>\<open>None\<close> instead of
  \<open>1\<close>, and a second push raises nothing.
\<close>

theorem Stack_push_pull_stub:
  "fst (push Stack_init (''A'', ''x'') (1::int)) = Stack_init
   \<and> snd (pull (fst (push Stack_init (''A'', ''x'') (1::int))) (''A'', ''x'')) = Inr None
   \<and> snd (pull (fst (push Stack_init (''A'', ''x'') (1::int))) (''A'', ''x'')) \<noteq> Inr (Some 1)
   \<and> snd (push (fst (push Stack_init (''A'', ''x'') (1::int))) (''A'', ''x'') 2) = Inr None"
  by (simp add: push_def pull_def)

end
